theory Spec2Isabelle
  imports Main "HOL-Library.Sublist"
begin

section \<open>The filesystem the program runs against\<close>

text \<open>
  The program (\<^verbatim>\<open>src/ss.py\<close>) talks to the operating system through four library
  calls: \<^verbatim>\<open>os.path.join\<close>, \<^verbatim>\<open>os.path.exists\<close>, \<^verbatim>\<open>os.makedirs\<close> and
  \<^verbatim>\<open>open(path, 'w')\<close>. They are modelled over an explicit filesystem state.

  A path is the list of its components, outermost first; \<open>[]\<close> is the directory every
  path is resolved from. The names of the tree are taken as single components, so that
  joining a name to a path appends it. (The names of the program's own tree are such
  components. The section on path strings below follows the strings that the program
  computes, for any names, and \<open>create_structure_str_render\<close> shows that the two agree
  where the names are plain components.)

  An entry is a directory or a regular file with its contents. Besides the entries the
  state holds the paths at which the operating system refuses to create or to truncate
  an entry (permissions do not change while the program runs), a journal of the changes
  made so far, and the lines written to standard output.
\<close>

type_synonym path = "string list"

datatype entry = Dir | File string

datatype os_error =
    FileExistsError
  | FileNotFoundError
  | NotADirectoryError
  | IsADirectoryError
  | PermissionError

datatype event = Created_Dir path | Created_File path | Truncated path

record fs =
  entries :: "path \<rightharpoonup> entry"
  denied :: "path \<Rightarrow> bool"
  journal :: "event list"
  stdout :: "string list"

type_synonym outcome = "(os_error + unit) \<times> fs"

definition join :: "path \<Rightarrow> string \<Rightarrow> path" where
  "join base_path name = base_path @ [name]"

definition path_exists :: "fs \<Rightarrow> path \<Rightarrow> bool" where
  "path_exists s p = (entries s p \<noteq> None)"

definition isdir :: "fs \<Rightarrow> path \<Rightarrow> bool" where
  "isdir s p = (entries s p = Some Dir)"

text \<open>
  Resolving the directory that holds \<open>p\<close>: it must exist and be a directory. The
  starting directory \<open>[]\<close> has no parent to resolve.
\<close>

definition parent_error :: "fs \<Rightarrow> path \<Rightarrow> os_error option" where
  "parent_error s p =
     (if p = [] then None
      else case entries s (butlast p) of
             None \<Rightarrow> Some FileNotFoundError
           | Some (File c) \<Rightarrow> Some NotADirectoryError
           | Some Dir \<Rightarrow> None)"

text \<open>\<^verbatim>\<open>os.mkdir(p)\<close>: one directory, whose parent must be there.\<close>

definition mkdir :: "path \<Rightarrow> fs \<Rightarrow> outcome" where
  "mkdir p s =
     (case parent_error s p of
        Some e \<Rightarrow> (Inl e, s)
      | None \<Rightarrow>
          if path_exists s p then (Inl FileExistsError, s)
          else if p = [] then (Inl FileNotFoundError, s)
          else if denied s p then (Inl PermissionError, s)
          else (Inr (), s\<lparr>entries := (entries s)(p \<mapsto> Dir),
                            journal := journal s @ [Created_Dir p]\<rparr>))"

text \<open>
  \<^verbatim>\<open>with open(p, 'w') as f: pass\<close>: the file is created empty, or truncated when it is
  already there; closing it changes nothing.
\<close>

definition open_w :: "path \<Rightarrow> fs \<Rightarrow> outcome" where
  "open_w p s =
     (case parent_error s p of
        Some e \<Rightarrow> (Inl e, s)
      | None \<Rightarrow>
          (case entries s p of
             Some Dir \<Rightarrow> (Inl IsADirectoryError, s)
           | Some (File c) \<Rightarrow>
               if denied s p then (Inl PermissionError, s)
               else (Inr (), s\<lparr>entries := (entries s)(p \<mapsto> File []),
                                 journal := journal s @ [Truncated p]\<rparr>)
           | None \<Rightarrow>
               if p = [] then (Inl FileNotFoundError, s)
               else if denied s p then (Inl PermissionError, s)
               else (Inr (), s\<lparr>entries := (entries s)(p \<mapsto> File []),
                                 journal := journal s @ [Created_File p]\<rparr>)))"

text \<open>
  \<^verbatim>\<open>os.makedirs(name, exist_ok=...)\<close>, after the standard library. \<open>make_leaf\<close> is
  its last step: the leaf is made with \<^verbatim>\<open>mkdir\<close>, and an error of that call is ignored
  only when \<open>exist_ok\<close> is set and the leaf is a directory. Before it, a missing head of
  the path is made by the recursive call, whose \<^verbatim>\<open>FileExistsError\<close> is ignored. (The
  library's special case of a leaf \<^verbatim>\<open>.\<close> does not arise: no component is \<^verbatim>\<open>.\<close>.)
\<close>

definition make_leaf :: "bool \<Rightarrow> path \<Rightarrow> fs \<Rightarrow> outcome" where
  "make_leaf exist_ok name s =
     (case mkdir name s of
        (Inl e, s') \<Rightarrow> if \<not> exist_ok \<or> \<not> isdir s' name then (Inl e, s') else (Inr (), s')
      | (Inr u, s') \<Rightarrow> (Inr (), s'))"

function makedirs :: "bool \<Rightarrow> path \<Rightarrow> fs \<Rightarrow> outcome" where
  "makedirs exist_ok name s =
     (if butlast name \<noteq> [] \<and> \<not> path_exists s (butlast name) then
        (case makedirs exist_ok (butlast name) s of
           (Inl e, s') \<Rightarrow>
             if e = FileExistsError then make_leaf exist_ok name s' else (Inl e, s')
         | (Inr u, s') \<Rightarrow> make_leaf exist_ok name s')
      else make_leaf exist_ok name s)"
  by pat_completeness auto
termination
proof (relation "measure (\<lambda>(e, n, s). length n)")
  fix exist_ok :: bool and name :: path and s :: fs
  assume "butlast name \<noteq> [] \<and> \<not> path_exists s (butlast name)"
  then have "name \<noteq> []" by auto
  then show "((exist_ok, butlast name, s), (exist_ok, name, s)) \<in> measure (\<lambda>(e, n, s). length n)"
    by simp
qed simp

declare makedirs.simps [simp del]

section \<open>The tree and its materializer\<close>

text \<open>
  The nested dictionary of the source: a value is \<^verbatim>\<open>None\<close> (a file) or another
  dictionary (a directory). A dictionary keeps its insertion order, so it is a list of
  pairs.
\<close>

datatype content = PyNone | PyDict "(string \<times> content) list"

text \<open>
  \<^verbatim>\<open>create_structure(base_path, structure)\<close>. An exception of a library call ends the
  walk: the error is returned with the state reached. \<open>ensure_base_path\<close> is the first
  statement of the body (\<^verbatim>\<open>if not os.path.exists(base_path): os.makedirs(base_path)\<close>),
  \<open>for_items\<close> is the \<^verbatim>\<open>for\<close> loop over \<^verbatim>\<open>structure.items()\<close>.
\<close>

definition ensure_base_path :: "path \<Rightarrow> fs \<Rightarrow> outcome" where
  "ensure_base_path base_path s =
     (if \<not> path_exists s base_path then makedirs False base_path s else (Inr (), s))"

fun create_structure :: "path \<Rightarrow> (string \<times> content) list \<Rightarrow> fs \<Rightarrow> outcome"
  and for_items :: "path \<Rightarrow> (string \<times> content) list \<Rightarrow> fs \<Rightarrow> outcome" where
  "create_structure base_path structure s =
     (case ensure_base_path base_path s of
        (Inl e, s') \<Rightarrow> (Inl e, s')
      | (Inr u, s') \<Rightarrow> for_items base_path structure s')"
| "for_items base_path [] s = (Inr (), s)"
| "for_items base_path ((name, PyNone) # rest) s =
     (case open_w (join base_path name) s of
        (Inl e, s') \<Rightarrow> (Inl e, s')
      | (Inr u, s') \<Rightarrow> for_items base_path rest s')"
| "for_items base_path ((name, PyDict sub) # rest) s =
     (case makedirs True (join base_path name) s of
        (Inl e, s') \<Rightarrow> (Inl e, s')
      | (Inr u, s') \<Rightarrow>
          (case create_structure (join base_path name) sub s' of
             (Inl e, s'') \<Rightarrow> (Inl e, s'')
           | (Inr u, s'') \<Rightarrow> for_items base_path rest s''))"

declare create_structure.simps(1) [simp del]

text \<open>
  The program: the fixed base directory, the fixed tree, and the line it prints. The
  base directory is the string \<^verbatim>\<open>"lib"\<close>, one component: as a path it is \<open>[base_dir]\<close>.
\<close>

definition base_dir :: string where
  "base_dir = ''lib''"

definition structure_literal :: "(string \<times> content) list" where
  "structure_literal = [
    (''main.dart'', PyNone),
    (''app.dart'', PyNone),
    (''firebase_options.dart'', PyNone),
    (''core'', PyDict [
      (''constants'', PyDict [
        (''api_constants.dart'', PyNone),
        (''app_constants.dart'', PyNone),
        (''color_constants.dart'', PyNone),
        (''string_constants.dart'', PyNone)]),
      (''config'', PyDict [
        (''app_config.dart'', PyNone),
        (''dio_config.dart'', PyNone),
        (''websocket_config.dart'', PyNone)]),
      (''utils'', PyDict [
        (''date_utils.dart'', PyNone),
        (''file_utils.dart'', PyNone),
        (''phone_utils.dart'', PyNone),
        (''permission_utils.dart'', PyNone),
        (''validation_utils.dart'', PyNone)]),
      (''extensions'', PyDict [
        (''context_extensions.dart'', PyNone),
        (''string_extensions.dart'', PyNone),
        (''datetime_extensions.dart'', PyNone),
        (''widget_extensions.dart'', PyNone)]),
      (''exceptions'', PyDict [
        (''app_exception.dart'', PyNone),
        (''network_exception.dart'', PyNone),
        (''auth_exception.dart'', PyNone)])]),
    (''models'', PyDict [
      (''auth'', PyDict [
        (''user_model.dart'', PyNone),
        (''login_request.dart'', PyNone),
        (''register_request.dart'', PyNone),
        (''otp_request.dart'', PyNone),
        (''auth_response.dart'', PyNone)]),
      (''chat'', PyDict [
        (''chat_model.dart'', PyNone),
        (''message_model.dart'', PyNone),
        (''participant_model.dart'', PyNone),
        (''chat_settings.dart'', PyNone)]),
      (''group'', PyDict [
        (''group_model.dart'', PyNone),
        (''group_member.dart'', PyNone),
        (''group_settings.dart'', PyNone),
        (''group_invite.dart'', PyNone)]),
      (''call'', PyDict [
        (''call_model.dart'', PyNone),
        (''call_participant.dart'', PyNone),
        (''call_settings.dart'', PyNone),
        (''webrtc_models.dart'', PyNone)]),
      (''file'', PyDict [
        (''file_model.dart'', PyNone),
        (''media_model.dart'', PyNone),
        (''upload_response.dart'', PyNone)]),
      (''common'', PyDict [
        (''api_response.dart'', PyNone),
        (''pagination_model.dart'', PyNone),
        (''error_model.dart'', PyNone)])]),
    (''services'', PyDict [
      (''api'', PyDict [
        (''api_service.dart'', PyNone),
        (''auth_api.dart'', PyNone),
        (''chat_api.dart'', PyNone),
        (''group_api.dart'', PyNone),
        (''call_api.dart'', PyNone),
        (''file_api.dart'', PyNone),
        (''message_api.dart'', PyNone)]),
      (''websocket'', PyDict [
        (''websocket_service.dart'', PyNone),
        (''chat_socket.dart'', PyNone),
        (''call_socket.dart'', PyNone)]),
      (''storage'', PyDict [
        (''secure_storage.dart'', PyNone),
        (''local_storage.dart'', PyNone),
        (''cache_service.dart'', PyNone)]),
      (''notification'', PyDict [
        (''fcm_service.dart'', PyNone),
        (''local_notification.dart'', PyNone),
        (''notification_handler.dart'', PyNone)]),
      (''media'', PyDict [
        (''media_service.dart'', PyNone),
        (''image_service.dart'', PyNone),
        (''video_service.dart'', PyNone),
        (''audio_service.dart'', PyNone),
        (''file_picker_service.dart'', PyNone)]),
      (''call'', PyDict [
        (''webrtc_service.dart'', PyNone),
        (''call_manager.dart'', PyNone),
        (''signaling_service.dart'', PyNone)]),
      (''location'', PyDict [
        (''location_service.dart'', PyNone),
        (''maps_service.dart'', PyNone)])]),
    (''providers'', PyDict [
      (''auth'', PyDict [
        (''auth_provider.dart'', PyNone),
        (''user_provider.dart'', PyNone),
        (''auth_state.dart'', PyNone)]),
      (''chat'', PyDict [
        (''chat_provider.dart'', PyNone),
        (''message_provider.dart'', PyNone),
        (''typing_provider.dart'', PyNone),
        (''chat_list_provider.dart'', PyNone)]),
      (''group'', PyDict [
        (''group_provider.dart'', PyNone),
        (''group_member_provider.dart'', PyNone),
        (''group_settings_provider.dart'', PyNone)]),
      (''call'', PyDict [
        (''call_provider.dart'', PyNone),
        (''webrtc_provider.dart'', PyNone),
        (''call_history_provider.dart'', PyNone)]),
      (''file'', PyDict [
        (''file_provider.dart'', PyNone),
        (''media_provider.dart'', PyNone),
        (''upload_provider.dart'', PyNone)]),
      (''settings'', PyDict [
        (''settings_provider.dart'', PyNone),
        (''theme_provider.dart'', PyNone),
        (''language_provider.dart'', PyNone)]),
      (''common'', PyDict [
        (''connectivity_provider.dart'', PyNone),
        (''permission_provider.dart'', PyNone),
        (''notification_provider.dart'', PyNone)])]),
    (''screens'', PyDict [
      (''auth'', PyDict [
        (''login_screen.dart'', PyNone),
        (''register_screen.dart'', PyNone),
        (''otp_verification_screen.dart'', PyNone),
        (''phone_input_screen.dart'', PyNone),
        (''profile_setup_screen.dart'', PyNone)]),
      (''chat'', PyDict [
        (''chat_list_screen.dart'', PyNone),
        (''chat_screen.dart'', PyNone),
        (''chat_info_screen.dart'', PyNone),
        (''new_chat_screen.dart'', PyNone),
        (''search_chat_screen.dart'', PyNone)]),
      (''group'', PyDict [
        (''group_list_screen.dart'', PyNone),
        (''group_chat_screen.dart'', PyNone),
        (''group_info_screen.dart'', PyNone),
        (''create_group_screen.dart'', PyNone),
        (''add_members_screen.dart'', PyNone),
        (''group_settings_screen.dart'', PyNone),
        (''group_invite_screen.dart'', PyNone)]),
      (''call'', PyDict [
        (''call_screen.dart'', PyNone),
        (''incoming_call_screen.dart'', PyNone),
        (''outgoing_call_screen.dart'', PyNone),
        (''call_history_screen.dart'', PyNone),
        (''video_call_screen.dart'', PyNone)]),
      (''settings'', PyDict [
        (''settings_screen.dart'', PyNone),
        (''profile_screen.dart'', PyNone),
        (''privacy_screen.dart'', PyNone),
        (''notification_settings_screen.dart'', PyNone),
        (''chat_settings_screen.dart'', PyNone),
        (''storage_settings_screen.dart'', PyNone),
        (''about_screen.dart'', PyNone)]),
      (''media'', PyDict [
        (''image_viewer_screen.dart'', PyNone),
        (''video_player_screen.dart'', PyNone),
        (''document_viewer_screen.dart'', PyNone),
        (''camera_screen.dart'', PyNone),
        (''gallery_screen.dart'', PyNone)]),
      (''status'', PyDict [
        (''status_screen.dart'', PyNone),
        (''add_status_screen.dart'', PyNone),
        (''status_viewer_screen.dart'', PyNone),
        (''status_privacy_screen.dart'', PyNone)]),
      (''common'', PyDict [
        (''splash_screen.dart'', PyNone),
        (''onboarding_screen.dart'', PyNone),
        (''main_navigation_screen.dart'', PyNone),
        (''search_screen.dart'', PyNone),
        (''error_screen.dart'', PyNone)])]),
    (''widgets'', PyDict [
      (''common'', PyDict [
        (''custom_app_bar.dart'', PyNone),
        (''custom_button.dart'', PyNone),
        (''custom_text_field.dart'', PyNone),
        (''custom_dialog.dart'', PyNone),
        (''custom_bottom_sheet.dart'', PyNone),
        (''loading_widget.dart'', PyNone),
        (''error_widget.dart'', PyNone),
        (''empty_state_widget.dart'', PyNone),
        (''custom_fab.dart'', PyNone),
        (''custom_badge.dart'', PyNone),
        (''custom_divider.dart'', PyNone)]),
      (''auth'', PyDict [
        (''phone_input_widget.dart'', PyNone),
        (''otp_input_widget.dart'', PyNone),
        (''country_picker_widget.dart'', PyNone),
        (''profile_picture_widget.dart'', PyNone)]),
      (''chat'', PyDict [
        (''chat_tile.dart'', PyNone),
        (''message_bubble.dart'', PyNone),
        (''message_input.dart'', PyNone),
        (''typing_indicator.dart'', PyNone),
        (''voice_note_player.dart'', PyNone),
        (''chat_app_bar.dart'', PyNone),
        (''message_reply_preview.dart'', PyNone),
        (''emoji_picker_widget.dart'', PyNone),
        (''attachment_picker.dart'', PyNone),
        (''read_receipt_widget.dart'', PyNone)]),
      (''group'', PyDict [
        (''group_tile.dart'', PyNone),
        (''group_member_tile.dart'', PyNone),
        (''group_info_widget.dart'', PyNone),
        (''member_picker_widget.dart'', PyNone),
        (''group_permissions_widget.dart'', PyNone)]),
      (''call'', PyDict [
        (''call_tile.dart'', PyNone),
        (''call_controls.dart'', PyNone),
        (''call_participant_widget.dart'', PyNone),
        (''call_overlay.dart'', PyNone),
        (''call_stats_widget.dart'', PyNone)]),
      (''media'', PyDict [
        (''image_message_widget.dart'', PyNone),
        (''video_message_widget.dart'', PyNone),
        (''audio_message_widget.dart'', PyNone),
        (''document_message_widget.dart'', PyNone),
        (''location_message_widget.dart'', PyNone),
        (''contact_message_widget.dart'', PyNone),
        (''media_grid_widget.dart'', PyNone),
        (''media_thumbnail.dart'', PyNone)]),
      (''settings'', PyDict [
        (''settings_tile.dart'', PyNone),
        (''settings_section.dart'', PyNone),
        (''switch_tile.dart'', PyNone),
        (''slider_tile.dart'', PyNone)]),
      (''status'', PyDict [
        (''status_tile.dart'', PyNone),
        (''status_viewer_widget.dart'', PyNone),
        (''status_progress_widget.dart'', PyNone),
        (''status_input_widget.dart'', PyNone)])]),
    (''router'', PyDict [
      (''app_router.dart'', PyNone),
      (''route_names.dart'', PyNone),
      (''route_transitions.dart'', PyNone),
      (''router_config.dart'', PyNone)]),
    (''theme'', PyDict [
      (''app_theme.dart'', PyNone),
      (''light_theme.dart'', PyNone),
      (''dark_theme.dart'', PyNone),
      (''colors.dart'', PyNone),
      (''text_styles.dart'', PyNone),
      (''dimensions.dart'', PyNone),
      (''custom_theme_extensions.dart'', PyNone)])]"

definition print :: "string \<Rightarrow> fs \<Rightarrow> fs" where
  "print line s = s\<lparr>stdout := stdout s @ [line]\<rparr>"

definition success_line :: string where
  "success_line =
     ''Directory structure created successfully under '' @ [CHR 0x27] @ base_dir @ [CHR 0x27]"

definition create_directory_structure :: "fs \<Rightarrow> outcome" where
  "create_directory_structure s =
     (case create_structure [base_dir] structure_literal s of
        (Inl e, s') \<Rightarrow> (Inl e, s')
      | (Inr u, s') \<Rightarrow> (Inr (), print success_line s'))"

section \<open>The walk as a sequence of library calls\<close>

text \<open>
  The nodes of a tree below its root, each with its computed path, in the order the
  walk meets them.
\<close>

fun nodes :: "path \<Rightarrow> (string \<times> content) list \<Rightarrow> (path \<times> content) list" where
  "nodes base_path [] = []"
| "nodes base_path ((name, PyNone) # rest) =
     (join base_path name, PyNone) # nodes base_path rest"
| "nodes base_path ((name, PyDict sub) # rest) =
     (join base_path name, PyDict sub) # nodes (join base_path name) sub @ nodes base_path rest"

definition file_paths :: "path \<Rightarrow> (string \<times> content) list \<Rightarrow> path list" where
  "file_paths base_path structure =
     map fst (filter (\<lambda>(p, c). c = PyNone) (nodes base_path structure))"

definition dir_paths :: "path \<Rightarrow> (string \<times> content) list \<Rightarrow> path list" where
  "dir_paths base_path structure =
     map fst (filter (\<lambda>(p, c). c \<noteq> PyNone) (nodes base_path structure))"

text \<open>
  The library calls of a walk, in the order it issues them, and their execution one
  after the other up to the first error. \<open>create_structure_exec\<close> below shows that this
  is what \<open>create_structure\<close> does.
\<close>

datatype call = Ensure_Base path | Open_W path | Makedirs_Ok path

fun target :: "call \<Rightarrow> path" where
  "target (Ensure_Base p) = p"
| "target (Open_W p) = p"
| "target (Makedirs_Ok p) = p"

fun exec_call :: "call \<Rightarrow> fs \<Rightarrow> outcome" where
  "exec_call (Ensure_Base p) s = ensure_base_path p s"
| "exec_call (Open_W p) s = open_w p s"
| "exec_call (Makedirs_Ok p) s = makedirs True p s"

fun exec :: "call list \<Rightarrow> fs \<Rightarrow> outcome" where
  "exec [] s = (Inr (), s)"
| "exec (c # cs) s =
     (case exec_call c s of
        (Inl e, s') \<Rightarrow> (Inl e, s')
      | (Inr u, s') \<Rightarrow> exec cs s')"

fun calls :: "path \<Rightarrow> (string \<times> content) list \<Rightarrow> call list"
  and item_calls :: "path \<Rightarrow> (string \<times> content) list \<Rightarrow> call list" where
  "calls base_path structure = Ensure_Base base_path # item_calls base_path structure"
| "item_calls base_path [] = []"
| "item_calls base_path ((name, PyNone) # rest) =
     Open_W (join base_path name) # item_calls base_path rest"
| "item_calls base_path ((name, PyDict sub) # rest) =
     Makedirs_Ok (join base_path name) # calls (join base_path name) sub
       @ item_calls base_path rest"

declare calls.simps(1) [simp del]

text \<open>The calls the walk issues when it meets one node.\<close>

fun node_calls :: "path \<times> content \<Rightarrow> call list" where
  "node_calls (p, PyNone) = [Open_W p]"
| "node_calls (p, PyDict sub) = [Makedirs_Ok p, Ensure_Base p]"

text \<open>
  A call is settled in a state when what it is to make is already there: the state a
  second run starts from. Such a call creates nothing; the only event it leaves is the
  truncation of a file.
\<close>

fun settled :: "fs \<Rightarrow> call \<Rightarrow> bool" where
  "settled s (Ensure_Base p) = path_exists s p"
| "settled s (Open_W p) =
     (entries s p = Some (File []) \<and> parent_error s p = None \<and> \<not> denied s p)"
| "settled s (Makedirs_Ok p) =
     (isdir s p \<and> (butlast p = [] \<or> path_exists s (butlast p)))"

fun rerun_events :: "call \<Rightarrow> event list" where
  "rerun_events (Ensure_Base p) = []"
| "rerun_events (Open_W p) = [Truncated p]"
| "rerun_events (Makedirs_Ok p) = []"

section \<open>What a run may do to the filesystem\<close>

text \<open>
  The events a run adds to the journal, and what each event says about the state:
  the entry it made is there.
\<close>

definition news :: "fs \<Rightarrow> fs \<Rightarrow> event list" where
  "news s s' = drop (length (journal s)) (journal s')"

fun recorded :: "fs \<Rightarrow> event \<Rightarrow> bool" where
  "recorded s (Created_Dir p) = (entries s p = Some Dir)"
| "recorded s (Created_File p) = (entries s p = Some (File []))"
| "recorded s (Truncated p) = (entries s p = Some (File []))"

text \<open>
  \<open>advances s s'\<close>: the state \<open>s'\<close> comes from \<open>s\<close> by creating entries and truncating
  files only. Nothing is removed, no entry changes its kind, permissions and standard
  output are as before, the journal has grown, and what it newly records holds in \<open>s'\<close>.
\<close>

definition advances :: "fs \<Rightarrow> fs \<Rightarrow> bool" where
  "advances s s' \<longleftrightarrow>
     denied s' = denied s \<and> stdout s' = stdout s \<and>
     prefix (journal s) (journal s') \<and>
     (\<forall>ev \<in> set (news s s'). recorded s' ev) \<and>
     (\<forall>p. entries s p = Some Dir \<longrightarrow> entries s' p = Some Dir) \<and>
     (\<forall>p c. entries s p = Some (File c) \<longrightarrow>
        entries s' p = Some (File c) \<or> entries s' p = Some (File []))"

section \<open>Example filesystems and trees\<close>

text \<open>
  A fresh working directory; one where \<^verbatim>\<open>lib\<close> is already a regular file; the tree of the
  specification's scenario (\<^verbatim>\<open>{"a.txt": FILE, "sub": {"b.txt": FILE}}\<close> under \<^verbatim>\<open>out\<close>);
  a working directory where \<^verbatim>\<open>out/a.txt\<close> already has contents and an unrelated file
  lies beside it; and one where \<^verbatim>\<open>out\<close> is there and the operating system refuses
  every change.
\<close>

definition allow_all :: "path \<Rightarrow> bool" where
  "allow_all p = False"

definition deny_all :: "path \<Rightarrow> bool" where
  "deny_all p = True"

definition fs_fresh :: fs where
  "fs_fresh = \<lparr>entries = [[] \<mapsto> Dir], denied = allow_all, journal = [], stdout = []\<rparr>"

definition fs_lib_file :: fs where
  "fs_lib_file =
     \<lparr>entries = [[] \<mapsto> Dir, [''lib''] \<mapsto> File ''x''],
      denied = allow_all, journal = [], stdout = []\<rparr>"

definition out_dir :: path where
  "out_dir = [''out'']"

definition scenario_tree :: "(string \<times> content) list" where
  "scenario_tree = [(''a.txt'', PyNone), (''sub'', PyDict [(''b.txt'', PyNone)])]"

definition fs_used :: fs where
  "fs_used =
     \<lparr>entries = [[] \<mapsto> Dir, [''out''] \<mapsto> Dir, [''out'', ''a.txt''] \<mapsto> File ''old'',
                 [''out'', ''notes.md''] \<mapsto> File ''keep''],
      denied = allow_all, journal = [], stdout = []\<rparr>"


text \<open>A fresh working directory where only \<^verbatim>\<open>out/sub\<close> is refused.\<close>

definition deny_sub :: "path \<Rightarrow> bool" where
  "deny_sub p = (p = [''out'', ''sub''])"

definition fs_no_sub :: fs where
  "fs_no_sub = \<lparr>entries = [[] \<mapsto> Dir], denied = deny_sub, journal = [], stdout = []\<rparr>"





text \<open>
  A working directory where \<^verbatim>\<open>out\<close> is there, with a file in it, and where the
  operating system would refuse to create \<^verbatim>\<open>out\<close> itself, and nothing else.
\<close>

definition deny_out :: "path \<Rightarrow> bool" where
  "deny_out p = (p = [''out''])"

definition fs_closed_out :: fs where
  "fs_closed_out =
     \<lparr>entries = [[] \<mapsto> Dir, [''out''] \<mapsto> Dir, [''out'', ''a.txt''] \<mapsto> File ''old''],
      denied = deny_out, journal = [], stdout = []\<rparr>"

section \<open>Refused creation\<close>



section \<open>The depth of the recursion\<close>

text \<open>
  The materializer with a bound on the depth of its recursion: every activation of
  \<^verbatim>\<open>create_structure\<close> takes one unit, and \<open>None\<close> says that the bound was too small.
  \<open>depth\<close> is the depth of the tree: one for the root, and one more for every level of
  directories nested in it.
\<close>

fun create_structure_fuel ::
    "nat \<Rightarrow> path \<Rightarrow> (string \<times> content) list \<Rightarrow> fs \<Rightarrow> outcome option"
  and for_items_fuel ::
    "nat \<Rightarrow> path \<Rightarrow> (string \<times> content) list \<Rightarrow> fs \<Rightarrow> outcome option" where
  "create_structure_fuel 0 base_path structure s = None"
| "create_structure_fuel (Suc n) base_path structure s =
     (case ensure_base_path base_path s of
        (Inl e, s') \<Rightarrow> Some (Inl e, s')
      | (Inr u, s') \<Rightarrow> for_items_fuel n base_path structure s')"
| "for_items_fuel n base_path [] s = Some (Inr (), s)"
| "for_items_fuel n base_path ((name, PyNone) # rest) s =
     (case open_w (join base_path name) s of
        (Inl e, s') \<Rightarrow> Some (Inl e, s')
      | (Inr u, s') \<Rightarrow> for_items_fuel n base_path rest s')"
| "for_items_fuel n base_path ((name, PyDict sub) # rest) s =
     (case makedirs True (join base_path name) s of
        (Inl e, s') \<Rightarrow> Some (Inl e, s')
      | (Inr u, s') \<Rightarrow>
          (case create_structure_fuel n (join base_path name) sub s' of
             None \<Rightarrow> None
           | Some (Inl e, s'') \<Rightarrow> Some (Inl e, s'')
           | Some (Inr u, s'') \<Rightarrow> for_items_fuel n base_path rest s''))"

fun depth :: "(string \<times> content) list \<Rightarrow> nat"
  and depth_below :: "(string \<times> content) list \<Rightarrow> nat" where
  "depth structure = Suc (depth_below structure)"
| "depth_below [] = 0"
| "depth_below ((name, PyNone) # rest) = depth_below rest"
| "depth_below ((name, PyDict sub) # rest) = max (depth sub) (depth_below rest)"

section \<open>Runs from the same disk\<close>

text \<open>
  The path an event is about. \<open>relog\<close> puts a state on another history (journal and
  standard output); \<open>replay j out s s'\<close> is the state \<open>s'\<close>, reached from \<open>s\<close>, on the
  history \<open>j\<close> and \<open>out\<close>: what the run from \<open>s\<close> to \<open>s'\<close> added to the journal is added
  to \<open>j\<close>.
\<close>

fun event_path :: "event \<Rightarrow> path" where
  "event_path (Created_Dir p) = p"
| "event_path (Created_File p) = p"
| "event_path (Truncated p) = p"

definition relog :: "event list \<Rightarrow> string list \<Rightarrow> fs \<Rightarrow> fs" where
  "relog j out s = s\<lparr>journal := j, stdout := out\<rparr>"

definition replay :: "event list \<Rightarrow> string list \<Rightarrow> fs \<Rightarrow> fs \<Rightarrow> fs" where
  "replay j out s s' = s'\<lparr>journal := j @ news s s', stdout := out\<rparr>"

section \<open>Path strings, as the operating system resolves them\<close>

text \<open>
  The program hands the operating system strings, and a name of the tree is any string:
  it may be empty, \<^verbatim>\<open>.\<close> or \<^verbatim>\<open>..\<close>, hold a separator or start with one. This section
  follows the strings. \<open>posix_join\<close> and \<open>posix_split\<close> are \<^verbatim>\<open>os.path.join\<close> and
  \<^verbatim>\<open>os.path.split\<close> of the standard library (\<^verbatim>\<open>posixpath\<close>).
\<close>

definition sep :: char where
  "sep = CHR ''/''"

definition startswith_sep :: "string \<Rightarrow> bool" where
  "startswith_sep p = (p \<noteq> [] \<and> hd p = sep)"

definition endswith_sep :: "string \<Rightarrow> bool" where
  "endswith_sep p = (p \<noteq> [] \<and> last p = sep)"

definition posix_join :: "string \<Rightarrow> string \<Rightarrow> string" where
  "posix_join a b =
     (if startswith_sep b \<or> a = [] then b
      else if endswith_sep a then a @ b
      else a @ [sep] @ b)"

definition rstrip_sep :: "string \<Rightarrow> string" where
  "rstrip_sep p = rev (dropWhile (\<lambda>c. c = sep) (rev p))"

definition posix_split :: "string \<Rightarrow> string \<times> string" where
  "posix_split p =
     (let head = rev (dropWhile (\<lambda>c. c \<noteq> sep) (rev p));
          tail = rev (takeWhile (\<lambda>c. c \<noteq> sep) (rev p))
      in (if head \<noteq> [] \<and> filter (\<lambda>c. c \<noteq> sep) head \<noteq> [] then rstrip_sep head else head,
          tail))"

text \<open>
  The resolution of a path string by the operating system, in a filesystem of
  directories and regular files (no links): from the root \<open>[]\<close> for a string that starts
  with a separator, from the working directory \<open>cwd\<close> otherwise, one component after the
  other. Empty components are skipped, \<^verbatim>\<open>.\<close> stays where it is, \<^verbatim>\<open>..\<close> goes up (the root
  is its own parent), and every directory that a component is looked up in must be
  there and be a directory. The empty string resolves to nothing. \<open>place\<close> is where the
  walk ends when no directory on the way is missing.
\<close>

fun pieces :: "string \<Rightarrow> string list" where
  "pieces [] = [[]]"
| "pieces (c # cs) =
     (if c = sep then [] # pieces cs else (c # hd (pieces cs)) # tl (pieces cs))"

definition components :: "string \<Rightarrow> string list" where
  "components p = filter (\<lambda>c. c \<noteq> []) (pieces p)"

definition step :: "path \<Rightarrow> string \<Rightarrow> path" where
  "step d c = (if c = ''.'' then d else if c = ''..'' then butlast d else d @ [c])"

fun walk :: "fs \<Rightarrow> path \<Rightarrow> string list \<Rightarrow> os_error + path" where
  "walk s d [] = Inr d"
| "walk s d (c # cs) =
     (case entries s d of
        None \<Rightarrow> Inl FileNotFoundError
      | Some (File x) \<Rightarrow> Inl NotADirectoryError
      | Some Dir \<Rightarrow> walk s (step d c) cs)"

definition start :: "path \<Rightarrow> string \<Rightarrow> path" where
  "start cwd p = (if startswith_sep p then [] else cwd)"

definition locate :: "path \<Rightarrow> fs \<Rightarrow> string \<Rightarrow> os_error + path" where
  "locate cwd s p =
     (if p = [] then Inl FileNotFoundError else walk s (start cwd p) (components p))"

definition place :: "path \<Rightarrow> string \<Rightarrow> path" where
  "place cwd p = foldl step (start cwd p) (components p)"

text \<open>
  The library calls on strings: the string is resolved, and the call does at the place
  found what it does in the first section. A string that ends with a separator names a
  directory: it exists only as one, and it cannot be opened for writing.
\<close>

definition os_path_exists :: "path \<Rightarrow> fs \<Rightarrow> string \<Rightarrow> bool" where
  "os_path_exists cwd s p =
     (case locate cwd s p of
        Inl e \<Rightarrow> False
      | Inr q \<Rightarrow> if endswith_sep p then isdir s q else path_exists s q)"

definition os_path_isdir :: "path \<Rightarrow> fs \<Rightarrow> string \<Rightarrow> bool" where
  "os_path_isdir cwd s p = (case locate cwd s p of Inl e \<Rightarrow> False | Inr q \<Rightarrow> isdir s q)"

definition os_mkdir :: "path \<Rightarrow> string \<Rightarrow> fs \<Rightarrow> outcome" where
  "os_mkdir cwd p s = (case locate cwd s p of Inl e \<Rightarrow> (Inl e, s) | Inr q \<Rightarrow> mkdir q s)"

definition os_open_w :: "path \<Rightarrow> string \<Rightarrow> fs \<Rightarrow> outcome" where
  "os_open_w cwd p s =
     (case locate cwd s p of
        Inl e \<Rightarrow> (Inl e, s)
      | Inr q \<Rightarrow> if endswith_sep p then (Inl IsADirectoryError, s) else open_w q s)"

text \<open>
  \<^verbatim>\<open>os.makedirs\<close> on strings, statement by statement: the name is split into head and
  tail, once more when the tail is empty; a missing head is made first, and then a tail
  \<^verbatim>\<open>.\<close> ends the call; otherwise the leaf is made.
\<close>

definition os_make_leaf :: "path \<Rightarrow> bool \<Rightarrow> string \<Rightarrow> fs \<Rightarrow> outcome" where
  "os_make_leaf cwd exist_ok name s =
     (case os_mkdir cwd name s of
        (Inl e, s') \<Rightarrow>
          if \<not> exist_ok \<or> \<not> os_path_isdir cwd s' name then (Inl e, s') else (Inr (), s')
      | (Inr u, s') \<Rightarrow> (Inr (), s'))"

definition split_name :: "string \<Rightarrow> string \<times> string" where
  "split_name name =
     (case posix_split name of
        (head, tail) \<Rightarrow> if tail = [] then posix_split head else (head, tail))"

function os_makedirs :: "path \<Rightarrow> bool \<Rightarrow> string \<Rightarrow> fs \<Rightarrow> outcome" where
  "os_makedirs cwd exist_ok name s =
     (if fst (split_name name) \<noteq> [] \<and> snd (split_name name) \<noteq> [] \<and>
         \<not> os_path_exists cwd s (fst (split_name name)) then
        (case os_makedirs cwd exist_ok (fst (split_name name)) s of
           (Inl e, s') \<Rightarrow>
             if e = FileExistsError then
               (if snd (split_name name) = ''.'' then (Inr (), s')
                else os_make_leaf cwd exist_ok name s')
             else (Inl e, s')
         | (Inr u, s') \<Rightarrow>
             if snd (split_name name) = ''.'' then (Inr (), s')
             else os_make_leaf cwd exist_ok name s')
      else os_make_leaf cwd exist_ok name s)"
  by pat_completeness auto
termination
proof (relation "measure (\<lambda>(cwd, e, n, s). length n)")
  fix cwd :: path and exist_ok :: bool and name :: string and s :: fs
  assume a: "fst (split_name name) \<noteq> [] \<and> snd (split_name name) \<noteq> [] \<and>
    \<not> os_path_exists cwd s (fst (split_name name))"
  have strip: "length (rstrip_sep p) \<le> length p" for p
    unfolding rstrip_sep_def using length_dropWhile_le[of "\<lambda>c. c = sep" "rev p"] by simp
  have parts: "length (rev (dropWhile (\<lambda>c. c \<noteq> sep) (rev p)))
      + length (rev (takeWhile (\<lambda>c. c \<noteq> sep) (rev p))) = length p" for p
    using takeWhile_dropWhile_id[of "\<lambda>c. c \<noteq> sep" "rev p"]
    by (metis add.commute length_append length_rev)
  have split: "length (fst (posix_split p)) + length (snd (posix_split p)) \<le> length p" for p
    using parts[of p] strip[of "rev (dropWhile (\<lambda>c. c \<noteq> sep) (rev p))"]
    by (auto simp: posix_split_def Let_def)
  have "length (fst (split_name name)) + length (snd (split_name name)) \<le> length name"
  proof (cases "snd (posix_split name) = []")
    case True
    then have "split_name name = posix_split (fst (posix_split name))"
      by (cases "posix_split name") (simp add: split_name_def)
    with split[of "fst (posix_split name)"] split[of name] show ?thesis by simp
  next
    case False
    then have "split_name name = posix_split name"
      by (cases "posix_split name") (simp add: split_name_def)
    with split[of name] show ?thesis by simp
  qed
  with a have "length (fst (split_name name)) < length name"
    by (cases "snd (split_name name)") auto
  then show "((cwd, exist_ok, fst (split_name name), s), (cwd, exist_ok, name, s))
      \<in> measure (\<lambda>(cwd, e, n, s). length n)"
    by simp
qed simp

declare os_makedirs.simps [simp del]

text \<open>
  The materializer on strings: the source again, with \<^verbatim>\<open>os.path.join\<close> for the path of
  an item.
\<close>

definition os_ensure_base_path :: "path \<Rightarrow> string \<Rightarrow> fs \<Rightarrow> outcome" where
  "os_ensure_base_path cwd base_path s =
     (if \<not> os_path_exists cwd s base_path then os_makedirs cwd False base_path s
      else (Inr (), s))"

fun create_structure_str :: "path \<Rightarrow> string \<Rightarrow> (string \<times> content) list \<Rightarrow> fs \<Rightarrow> outcome"
  and for_items_str :: "path \<Rightarrow> string \<Rightarrow> (string \<times> content) list \<Rightarrow> fs \<Rightarrow> outcome" where
  "create_structure_str cwd base_path structure s =
     (case os_ensure_base_path cwd base_path s of
        (Inl e, s') \<Rightarrow> (Inl e, s')
      | (Inr u, s') \<Rightarrow> for_items_str cwd base_path structure s')"
| "for_items_str cwd base_path [] s = (Inr (), s)"
| "for_items_str cwd base_path ((name, PyNone) # rest) s =
     (case os_open_w cwd (posix_join base_path name) s of
        (Inl e, s') \<Rightarrow> (Inl e, s')
      | (Inr u, s') \<Rightarrow> for_items_str cwd base_path rest s')"
| "for_items_str cwd base_path ((name, PyDict sub) # rest) s =
     (case os_makedirs cwd True (posix_join base_path name) s of
        (Inl e, s') \<Rightarrow> (Inl e, s')
      | (Inr u, s') \<Rightarrow>
          (case create_structure_str cwd (posix_join base_path name) sub s' of
             (Inl e, s'') \<Rightarrow> (Inl e, s'')
           | (Inr u, s'') \<Rightarrow> for_items_str cwd base_path rest s''))"

declare create_structure_str.simps(1) [simp del]

text \<open>
  The nodes of a tree with their computed paths as the program computes them, as
  strings; the computed paths of the file markers.
\<close>

fun node_strings :: "string \<Rightarrow> (string \<times> content) list \<Rightarrow> (string \<times> content) list" where
  "node_strings base_path [] = []"
| "node_strings base_path ((name, PyNone) # rest) =
     (posix_join base_path name, PyNone) # node_strings base_path rest"
| "node_strings base_path ((name, PyDict sub) # rest) =
     (posix_join base_path name, PyDict sub) # node_strings (posix_join base_path name) sub
       @ node_strings base_path rest"

definition file_strings :: "string \<Rightarrow> (string \<times> content) list \<Rightarrow> string list" where
  "file_strings base_path structure =
     map fst (filter (\<lambda>(p, c). c = PyNone) (node_strings base_path structure))"

text \<open>
  A plain name is one component: not empty, without a separator, and neither \<^verbatim>\<open>.\<close> nor
  \<^verbatim>\<open>..\<close>. \<open>render\<close> is the string of a path of plain components.
\<close>

definition plain :: "string \<Rightarrow> bool" where
  "plain n \<longleftrightarrow> n \<noteq> [] \<and> sep \<notin> set n \<and> n \<noteq> ''.'' \<and> n \<noteq> ''..''"

fun plain_tree :: "(string \<times> content) list \<Rightarrow> bool" where
  "plain_tree [] = True"
| "plain_tree ((name, PyNone) # rest) = (plain name \<and> plain_tree rest)"
| "plain_tree ((name, PyDict sub) # rest) = (plain name \<and> plain_tree sub \<and> plain_tree rest)"

fun render :: "path \<Rightarrow> string" where
  "render [] = []"
| "render [c] = c"
| "render (c # d # cs) = c @ [sep] @ render (d # cs)"

text \<open>
  A filesystem is tree shaped when every entry lies in a directory: whatever is there,
  other than the root, has a directory as its parent.
\<close>

definition tree_shaped :: "fs \<Rightarrow> bool" where
  "tree_shaped s \<longleftrightarrow>
     (\<forall>p. p \<noteq> [] \<and> entries s p \<noteq> None \<longrightarrow> entries s (butlast p) = Some Dir)"

text \<open>The tree \<^verbatim>\<open>{".": {"notes.md": FILE}}\<close>, with a name that is not plain.\<close>

definition dot_tree :: "(string \<times> content) list" where
  "dot_tree = [(''.'', PyDict [(''notes.md'', PyNone)])]"

section \<open>The walk is the sequence of its calls\<close>

lemma exec_append:
  "exec (cs @ ds) s =
     (case exec cs s of (Inl e, s') \<Rightarrow> (Inl e, s') | (Inr u, s') \<Rightarrow> exec ds s')"
proof (induction cs arbitrary: s)
  case Nil
  show ?case by simp
next
  case (Cons c cs)
  show ?case
    by (cases "exec_call c s"; cases "fst (exec_call c s)") (simp_all add: Cons.IH)
qed

lemma create_structure_exec_both:
  "create_structure b t s = exec (calls b t) s"
  "for_items b t s = exec (item_calls b t) s"
proof (induction b t s and b t s rule: create_structure_for_items.induct)
  case (1 base_path tree s)
  show ?case
  proof (cases "ensure_base_path base_path s")
    case (Pair r s')
    show ?thesis
    proof (cases r)
      case (Inl e)
      with Pair show ?thesis by (simp add: create_structure.simps(1) calls.simps(1))
    next
      case (Inr u)
      with Pair 1 show ?thesis by (simp add: create_structure.simps(1) calls.simps(1))
    qed
  qed
next
  case (2 base_path s)
  show ?case by simp
next
  case (3 base_path name rest s)
  show ?case
  proof (cases "open_w (join base_path name) s")
    case (Pair r s')
    show ?thesis
    proof (cases r)
      case (Inl e)
      with Pair show ?thesis by simp
    next
      case (Inr u)
      with Pair 3 show ?thesis by simp
    qed
  qed
next
  case (4 base_path name sub rest s)
  show ?case
  proof (cases "makedirs True (join base_path name) s")
    case (Pair r s')
    show ?thesis
    proof (cases r)
      case (Inl e)
      with Pair show ?thesis by simp
    next
      case (Inr u)
      note mk = Pair Inr
      show ?thesis
      proof (cases "create_structure (join base_path name) sub s'")
        case (Pair r2 s2)
        have eq: "exec (calls (join base_path name) sub) s' = (r2, s2)"
          using 4(1)[OF mk(1)[unfolded mk(2), symmetric] refl] Pair by simp
        show ?thesis
        proof (cases r2)
          case (Inl e)
          with mk Pair eq show ?thesis
            by (simp add: exec_append)
        next
          case (Inr u2)
          with mk Pair eq 4(2) show ?thesis
            by (simp add: exec_append)
        qed
      qed
    qed
  qed
qed

lemmas create_structure_exec = create_structure_exec_both(1)

section \<open>Every call only adds to the filesystem\<close>

lemma news_self: "news s s = []"
  by (simp add: news_def)

lemma news_append: "journal s' = journal s @ evs \<Longrightarrow> news s s' = evs"
  by (simp add: news_def)

lemma prefix_news: "prefix (journal s) (journal s') \<Longrightarrow> journal s' = journal s @ news s s'"
  by (auto simp: news_def prefix_def)

lemma news_trans:
  assumes "prefix (journal s) (journal s')" "prefix (journal s') (journal s'')"
  shows "news s s'' = news s s' @ news s' s''"
proof -
  have "journal s'' = journal s @ news s s' @ news s' s''"
    using prefix_news[OF assms(1)] prefix_news[OF assms(2)] by simp
  then show ?thesis by (rule news_append)
qed

lemma advances_refl: "advances s s"
  by (simp add: advances_def news_self)

lemma advances_recorded: "advances s s' \<Longrightarrow> recorded s ev \<Longrightarrow> recorded s' ev"
  by (cases ev) (auto simp: advances_def)

lemma advances_trans:
  assumes a: "advances s s'" and b: "advances s' s''"
  shows "advances s s''"
proof -
  have p1: "prefix (journal s) (journal s')" and p2: "prefix (journal s') (journal s'')"
    using a b by (simp_all add: advances_def)
  have n: "news s s'' = news s s' @ news s' s''" by (rule news_trans[OF p1 p2])
  have r1: "\<forall>ev \<in> set (news s s'). recorded s'' ev"
    using a advances_recorded[OF b] by (simp add: advances_def)
  have r2: "\<forall>ev \<in> set (news s' s''). recorded s'' ev"
    using b by (simp add: advances_def)
  have d: "\<forall>p. entries s p = Some Dir \<longrightarrow> entries s'' p = Some Dir"
    using a b by (simp add: advances_def)
  have f: "\<forall>p c. entries s p = Some (File c) \<longrightarrow>
        entries s'' p = Some (File c) \<or> entries s'' p = Some (File [])"
  proof (intro allI impI)
    fix p c assume "entries s p = Some (File c)"
    then have "entries s' p = Some (File c) \<or> entries s' p = Some (File [])"
      using a by (simp add: advances_def)
    then show "entries s'' p = Some (File c) \<or> entries s'' p = Some (File [])"
      using b unfolding advances_def by blast
  qed
  show ?thesis
    unfolding advances_def using a b p1 p2 n r1 r2 d f
    by (auto simp: advances_def intro: prefix_order.trans)
qed

lemma mkdir_cases:
  assumes "mkdir p s = (r, s')"
  obtains (fail) e where "r = Inl e" "s' = s"
  | (ok) "r = Inr ()" "entries s p = None" "p \<noteq> []" "parent_error s p = None" "\<not> denied s p"
      "s' = s\<lparr>entries := (entries s)(p \<mapsto> Dir), journal := journal s @ [Created_Dir p]\<rparr>"
  using assms
  by (auto simp: mkdir_def path_exists_def split: option.splits if_splits)

lemma open_w_cases:
  assumes "open_w p s = (r, s')"
  obtains (fail) e where "r = Inl e" "s' = s"
  | (create) "r = Inr ()" "entries s p = None" "p \<noteq> []" "parent_error s p = None" "\<not> denied s p"
      "s' = s\<lparr>entries := (entries s)(p \<mapsto> File []), journal := journal s @ [Created_File p]\<rparr>"
  | (truncate) c where "r = Inr ()" "entries s p = Some (File c)" "parent_error s p = None"
      "\<not> denied s p"
      "s' = s\<lparr>entries := (entries s)(p \<mapsto> File []), journal := journal s @ [Truncated p]\<rparr>"
  using assms
  by (auto simp: open_w_def split: option.splits if_splits entry.splits)

lemma advances_create:
  assumes "entries s p = None" "recorded (s\<lparr>entries := (entries s)(p \<mapsto> x), journal := journal s @ [ev]\<rparr>) ev"
  shows "advances s (s\<lparr>entries := (entries s)(p \<mapsto> x), journal := journal s @ [ev]\<rparr>)"
  using assms by (auto simp: advances_def news_def)

lemma advances_truncate:
  assumes "entries s p = Some (File c)"
  shows "advances s (s\<lparr>entries := (entries s)(p \<mapsto> File []), journal := journal s @ [Truncated p]\<rparr>)"
  using assms by (auto simp: advances_def news_def)

lemma mkdir_advances: "advances s (snd (mkdir p s))"
proof (cases "mkdir p s")
  case (Pair r s')
  then show ?thesis
    by (cases rule: mkdir_cases) (simp_all add: Pair advances_refl advances_create)
qed

lemma open_w_advances: "advances s (snd (open_w p s))"
proof (cases "open_w p s")
  case (Pair r s')
  then show ?thesis
    by (cases rule: open_w_cases) (simp_all add: Pair advances_refl advances_create advances_truncate)
qed

lemma make_leaf_snd: "snd (make_leaf ok name s) = snd (mkdir name s)"
  by (cases "mkdir name s"; cases "fst (mkdir name s)") (auto simp: make_leaf_def)

lemma make_leaf_advances: "advances s (snd (make_leaf ok name s))"
  by (simp add: make_leaf_snd mkdir_advances)

lemma make_leaf_isdir:
  assumes "make_leaf ok name s = (Inr u, s')"
  shows "isdir s' name"
proof (cases "mkdir name s")
  case (Pair r s1)
  then show ?thesis
  proof (cases rule: mkdir_cases)
    case (fail e)
    with Pair assms show ?thesis by (auto simp: make_leaf_def split: if_splits)
  next
    case ok
    with Pair assms show ?thesis by (auto simp: make_leaf_def isdir_def)
  qed
qed

lemma makedirs_advances: "advances s (snd (makedirs ok name s))"
proof (induction ok name s rule: makedirs.induct)
  case (1 ok name s)
  show ?case
  proof (cases "butlast name \<noteq> [] \<and> \<not> path_exists s (butlast name)")
    case False
    then show ?thesis by (subst makedirs.simps) (auto simp: make_leaf_advances)
  next
    case True
    obtain r s1 where h: "makedirs ok (butlast name) s = (r, s1)" by force
    have a1: "advances s s1" using 1[OF True] h by simp
    have a2: "advances s1 (snd (make_leaf ok name s1))" by (rule make_leaf_advances)
    show ?thesis
      using True h a1 advances_trans[OF a1 a2]
      by (subst makedirs.simps) (auto split: sum.splits)
  qed
qed

lemma makedirs_isdir:
  assumes "makedirs ok name s = (Inr u, s')"
  shows "isdir s' name"
  using assms
  by (subst (asm) makedirs.simps) (auto split: if_splits prod.splits sum.splits dest: make_leaf_isdir)

lemma ensure_base_path_advances: "advances s (snd (ensure_base_path p s))"
  by (simp add: ensure_base_path_def makedirs_advances advances_refl)

lemma exec_call_advances: "advances s (snd (exec_call c s))"
  by (cases c) (simp_all add: ensure_base_path_advances makedirs_advances open_w_advances)

lemma exec_advances: "advances s (snd (exec cs s))"
proof (induction cs arbitrary: s)
  case Nil
  show ?case by (simp add: advances_refl)
next
  case (Cons c cs)
  obtain r s1 where h: "exec_call c s = (r, s1)" by force
  have a1: "advances s s1" using exec_call_advances[of s c] h by simp
  show ?case
  proof (cases r)
    case (Inl e)
    with h a1 show ?thesis by simp
  next
    case (Inr u)
    with h advances_trans[OF a1 Cons.IH[of s1]] show ?thesis by simp
  qed
qed

section \<open>The first statement: the base directory\<close>

lemmas fs_examples =
  fs_fresh_def fs_used_def allow_all_def out_dir_def scenario_tree_def

lemmas run_simps =
  create_structure.simps(1) ensure_base_path_def makedirs.simps make_leaf_def mkdir_def
  open_w_def parent_error_def path_exists_def isdir_def join_def

lemma ensure_base_path_fresh_dir:
  assumes "\<not> path_exists s b" "b \<noteq> []" "isdir s (butlast b)" "\<not> denied s b"
  shows "ensure_base_path b s =
    (Inr (), s\<lparr>entries := (entries s)(b \<mapsto> Dir), journal := journal s @ [Created_Dir b]\<rparr>)"
proof -
  have "makedirs False b s = make_leaf False b s"
    using assms by (subst makedirs.simps) (simp add: isdir_def path_exists_def)
  moreover have "mkdir b s =
    (Inr (), s\<lparr>entries := (entries s)(b \<mapsto> Dir), journal := journal s @ [Created_Dir b]\<rparr>)"
    using assms by (simp add: mkdir_def parent_error_def isdir_def)
  ultimately show ?thesis
    using assms by (simp add: ensure_base_path_def make_leaf_def)
qed

lemma ensure_base_path_isdir:
  assumes "fst (ensure_base_path b s) = Inr ()" "\<forall>c. entries s b \<noteq> Some (File c)"
  shows "isdir (snd (ensure_base_path b s)) b"
proof (cases "path_exists s b")
  case True
  then obtain x where "entries s b = Some x" by (auto simp: path_exists_def)
  with assms(2) have "entries s b = Some Dir" by (cases x) auto
  with True show ?thesis by (simp add: ensure_base_path_def isdir_def)
next
  case False
  obtain r s' where h: "makedirs False b s = (r, s')" by force
  with False assms(1) have "r = Inr ()" by (simp add: ensure_base_path_def)
  with h have "isdir s' b" by (auto dest: makedirs_isdir)
  with False h show ?thesis by (simp add: ensure_base_path_def)
qed

section \<open>What a completed walk leaves behind\<close>

lemma advances_isdir: "advances s s' \<Longrightarrow> isdir s p \<Longrightarrow> isdir s' p"
  by (simp add: advances_def isdir_def)

lemma advances_empty_file:
  "advances s s' \<Longrightarrow> entries s p = Some (File []) \<Longrightarrow> entries s' p = Some (File [])"
  by (auto simp: advances_def)

lemma advances_path_exists: "advances s s' \<Longrightarrow> path_exists s p \<Longrightarrow> path_exists s' p"
proof -
  assume a: "advances s s'" and "path_exists s p"
  then obtain x where x: "entries s p = Some x" by (auto simp: path_exists_def)
  show "path_exists s' p"
  proof (cases x)
    case Dir
    with a x show ?thesis by (simp add: advances_def path_exists_def)
  next
    case (File c)
    with a x have "entries s' p = Some (File c) \<or> entries s' p = Some (File [])"
      unfolding advances_def by blast
    then show ?thesis by (auto simp: path_exists_def)
  qed
qed

lemma advances_denied: "advances s s' \<Longrightarrow> denied s' = denied s"
  by (simp add: advances_def)

lemma parent_error_None: "parent_error s p = None \<longleftrightarrow> p = [] \<or> isdir s (butlast p)"
  by (auto simp: parent_error_def isdir_def split: option.splits entry.splits)

lemma advances_parent_error:
  "advances s s' \<Longrightarrow> parent_error s p = None \<Longrightarrow> parent_error s' p = None"
  by (auto simp: parent_error_None dest: advances_isdir)

lemma exec_reaches:
  assumes "exec cs s = (Inr u, s')" "c \<in> set cs"
  shows "\<exists>s1 s2. advances s s1 \<and> exec_call c s1 = (Inr (), s2) \<and> advances s2 s'"
  using assms
proof (induction cs arbitrary: s)
  case Nil
  then show ?case by simp
next
  case (Cons d cs)
  obtain r s1 where h: "exec_call d s = (r, s1)" by force
  with Cons.prems(1) have r: "r = Inr ()" and rest: "exec cs s1 = (Inr u, s')"
    by (auto split: sum.splits)
  have a1: "advances s s1" using exec_call_advances[of s d] h by simp
  have a2: "advances s1 s'" using exec_advances[of s1 cs] rest by simp
  show ?case
  proof (cases "c = d")
    case True
    with h r a2 advances_refl[of s] show ?thesis by blast
  next
    case False
    with Cons.prems(2) have "c \<in> set cs" by simp
    from Cons.IH[OF rest this] obtain t1 t2
      where "advances s1 t1" "exec_call c t1 = (Inr (), t2)" "advances t2 s'" by blast
    with advances_trans[OF a1] show ?thesis by blast
  qed
qed

lemma open_w_post:
  assumes "open_w p s = (Inr u, s')"
  shows "entries s' p = Some (File []) \<and> parent_error s' p = None \<and> \<not> denied s' p"
  using assms
  by (cases rule: open_w_cases)
     (auto simp: parent_error_None isdir_def split: if_splits)

lemma exec_open_w_post:
  assumes "exec cs s = (Inr u, s')" "Open_W p \<in> set cs"
  shows "entries s' p = Some (File []) \<and> parent_error s' p = None \<and> \<not> denied s' p"
proof -
  from exec_reaches[OF assms] obtain s1 s2
    where a: "open_w p s1 = (Inr (), s2)" "advances s2 s'" by auto
  from open_w_post[OF a(1)] a(2) show ?thesis
    by (auto dest: advances_empty_file advances_parent_error advances_denied)
qed

lemma exec_makedirs_post:
  assumes "exec cs s = (Inr u, s')" "Makedirs_Ok p \<in> set cs"
  shows "isdir s' p"
proof -
  from exec_reaches[OF assms] obtain s1 s2
    where a: "makedirs True p s1 = (Inr (), s2)" "advances s2 s'" by auto
  from makedirs_isdir[OF a(1)] a(2) show ?thesis by (rule advances_isdir[rotated])
qed

lemma ensure_base_path_exists:
  assumes "ensure_base_path p s = (Inr u, s')"
  shows "path_exists s' p"
  using assms makedirs_isdir[of False p s u s']
  by (auto simp: ensure_base_path_def isdir_def path_exists_def split: if_splits)

lemma exec_ensure_post:
  assumes "exec cs s = (Inr u, s')" "Ensure_Base p \<in> set cs"
  shows "path_exists s' p"
proof -
  from exec_reaches[OF assms] obtain s1 s2
    where a: "ensure_base_path p s1 = (Inr (), s2)" "advances s2 s'" by auto
  from ensure_base_path_exists[OF a(1)] a(2) show ?thesis by (rule advances_path_exists[rotated])
qed

section \<open>The calls of a walk and the nodes of its tree\<close>

lemma calls_nodes_both:
  "calls b t = Ensure_Base b # concat (map node_calls (nodes b t))"
  "item_calls b t = concat (map node_calls (nodes b t))"
  by (induction b t and b t rule: calls_item_calls.induct) (simp_all add: calls.simps(1))

lemmas calls_nodes = calls_nodes_both(1)

lemma Open_W_calls: "Open_W p \<in> set (calls b t) \<longleftrightarrow> (p, PyNone) \<in> set (nodes b t)"
proof -
  have "Open_W p \<in> set (node_calls n) \<longleftrightarrow> n = (p, PyNone)" for n
    by (cases n rule: node_calls.cases) auto
  then show ?thesis by (auto simp: calls_nodes)
qed

lemma Makedirs_Ok_calls:
  "Makedirs_Ok p \<in> set (calls b t) \<longleftrightarrow> (\<exists>sub. (p, PyDict sub) \<in> set (nodes b t))"
proof -
  have "Makedirs_Ok p \<in> set (node_calls n) \<longleftrightarrow> (\<exists>sub. n = (p, PyDict sub))" for n
    by (cases n rule: node_calls.cases) auto
  then show ?thesis by (auto simp: calls_nodes)
qed

lemma Ensure_Base_calls:
  "Ensure_Base p \<in> set (calls b t) \<longleftrightarrow> p = b \<or> (\<exists>sub. (p, PyDict sub) \<in> set (nodes b t))"
proof -
  have "Ensure_Base p \<in> set (node_calls n) \<longleftrightarrow> (\<exists>sub. n = (p, PyDict sub))" for n
    by (cases n rule: node_calls.cases) auto
  then show ?thesis by (auto simp: calls_nodes)
qed

section \<open>Concrete runs\<close>

lemma scenario_fresh_run:
  "create_structure out_dir scenario_tree fs_fresh =
     (Inr (),
      \<lparr>entries = [[] \<mapsto> Dir, [''out''] \<mapsto> Dir, [''out'', ''a.txt''] \<mapsto> File [],
                  [''out'', ''sub''] \<mapsto> Dir, [''out'', ''sub'', ''b.txt''] \<mapsto> File []],
       denied = allow_all,
       journal = [Created_Dir [''out''], Created_File [''out'', ''a.txt''],
                  Created_Dir [''out'', ''sub''], Created_File [''out'', ''sub'', ''b.txt'']],
       stdout = []\<rparr>)"
  by (simp add: fs_examples run_simps)

lemma scenario_nodes:
  "nodes out_dir scenario_tree =
     [([''out'', ''a.txt''], PyNone), ([''out'', ''sub''], PyDict [(''b.txt'', PyNone)]),
      ([''out'', ''sub'', ''b.txt''], PyNone)]"
  by (simp add: fs_examples join_def)

section \<open>After a successful run\<close>

lemma create_structure_node:
  assumes ok: "fst (create_structure b t s) = Inr ()" and n: "(p, c) \<in> set (nodes b t)"
  shows "entries (snd (create_structure b t s)) p =
           Some (case c of PyNone \<Rightarrow> File [] | PyDict sub \<Rightarrow> Dir)"
proof -
  obtain s' where run: "exec (calls b t) s = (Inr (), s')"
    using ok by (cases "create_structure b t s") (simp add: create_structure_exec)
  show ?thesis
  proof (cases c)
    case PyNone
    with n have "Open_W p \<in> set (calls b t)" by (simp only: Open_W_calls)
    from exec_open_w_post[OF run this] run PyNone show ?thesis
      by (simp add: create_structure_exec)
  next
    case (PyDict sub)
    with n have "Makedirs_Ok p \<in> set (calls b t)" by (auto simp only: Makedirs_Ok_calls)
    from exec_makedirs_post[OF run this] run PyDict show ?thesis
      by (simp add: create_structure_exec isdir_def)
  qed
qed

lemma create_structure_root:
  assumes ok: "fst (create_structure b t s) = Inr ()"
    and nf: "\<forall>c. entries s b \<noteq> Some (File c)"
  shows "isdir (snd (create_structure b t s)) b"
proof -
  obtain r s1 where e: "ensure_base_path b s = (r, s1)" by force
  with ok have r: "r = Inr ()" by (cases r) (simp_all add: create_structure.simps(1))
  have d: "isdir s1 b" using ensure_base_path_isdir[of b s] e r nf by simp
  have "snd (create_structure b t s) = snd (exec (item_calls b t) s1)"
    using e r by (simp add: create_structure.simps(1) create_structure_exec_both(2))
  with advances_isdir[OF exec_advances d] show ?thesis by simp
qed

text \<open>
  Claim C1, as amended. After a successful run every directory node below the root has a
  directory at its computed path and every file marker has an empty file at its computed
  path; the root has a directory at the base path provided the base path was not already
  there as a regular file.
\<close>

theorem create_structure_materializes:
  assumes "fst (create_structure b t s) = Inr ()"
  shows "(\<forall>(p, c) \<in> set (nodes b t).
            entries (snd (create_structure b t s)) p =
              Some (case c of PyNone \<Rightarrow> File [] | PyDict sub \<Rightarrow> Dir)) \<and>
         ((\<forall>c. entries s b \<noteq> Some (File c)) \<longrightarrow> isdir (snd (create_structure b t s)) b)"
proof (intro conjI ballI impI)
  fix n assume n: "n \<in> set (nodes b t)"
  obtain p c where pc: "n = (p, c)" by (cases n)
  show "case n of (p, c) \<Rightarrow>
      entries (snd (create_structure b t s)) p =
        Some (case c of PyNone \<Rightarrow> File [] | PyDict sub \<Rightarrow> Dir)"
    using create_structure_node[OF assms, of p c] n pc by simp
next
  assume "\<forall>c. entries s b \<noteq> Some (File c)"
  with assms show "isdir (snd (create_structure b t s)) b" by (rule create_structure_root)
qed

theorem create_structure_materializes_witness:
  "fst (create_structure out_dir scenario_tree fs_fresh) = Inr () \<and>
   entries (snd (create_structure out_dir scenario_tree fs_fresh)) [''out'', ''a.txt'']
     = Some (File []) \<and>
   entries (snd (create_structure out_dir scenario_tree fs_fresh)) [''out'', ''sub'']
     = Some Dir \<and>
   entries (snd (create_structure out_dir scenario_tree fs_fresh)) [''out'', ''sub'', ''b.txt'']
     = Some (File []) \<and>
   isdir (snd (create_structure out_dir scenario_tree fs_fresh)) out_dir"
proof -
  have ok: "fst (create_structure out_dir scenario_tree fs_fresh) = Inr ()"
    by (simp add: scenario_fresh_run)
  have nf: "\<forall>c. entries fs_fresh out_dir \<noteq> Some (File c)"
    by (simp add: fs_examples)
  from create_structure_materializes[OF ok] nf ok show ?thesis
    by (simp add: scenario_nodes)
qed

text \<open>
  Claim C1 as stated fails at the root: with an empty tree and a base path that is
  already a regular file the run succeeds, and no directory is at the base path.
\<close>

theorem create_structure_root_counterexample:
  "fst (create_structure [base_dir] [] fs_lib_file) = Inr () \<and>
   entries (snd (create_structure [base_dir] [] fs_lib_file)) [base_dir] = Some (File ''x'')"
  by (simp add: create_structure.simps(1) ensure_base_path_def path_exists_def
      fs_lib_file_def base_dir_def)

section \<open>Running again\<close>

lemma settled_journal [simp]: "settled (s\<lparr>journal := j\<rparr>) c = settled s c"
  by (cases c) (simp_all add: path_exists_def isdir_def parent_error_def)

lemma makedirs_settled:
  assumes "isdir s p" "butlast p = [] \<or> path_exists s (butlast p)"
  shows "makedirs True p s = (Inr (), s)"
proof -
  have "makedirs True p s = make_leaf True p s"
    using assms(2) by (subst makedirs.simps) auto
  moreover have "\<exists>e. mkdir p s = (Inl e, s)"
    using assms(1) by (auto simp: mkdir_def isdir_def path_exists_def split: option.splits)
  ultimately show ?thesis using assms(1) by (auto simp: make_leaf_def)
qed

lemma exec_call_settled:
  assumes "settled s c"
  shows "exec_call c s = (Inr (), s\<lparr>journal := journal s @ rerun_events c\<rparr>)"
proof (cases c)
  case (Ensure_Base p)
  with assms show ?thesis by (simp add: ensure_base_path_def)
next
  case (Open_W p)
  with assms have "(entries s)(p \<mapsto> File []) = entries s" by (auto simp: fun_upd_idem)
  with assms Open_W show ?thesis by (simp add: open_w_def)
next
  case (Makedirs_Ok p)
  with assms show ?thesis by (simp add: makedirs_settled)
qed

lemma exec_settled:
  assumes "\<forall>c \<in> set cs. settled s c"
  shows "exec cs s = (Inr (), s\<lparr>journal := journal s @ concat (map rerun_events cs)\<rparr>)"
  using assms
proof (induction cs arbitrary: s)
  case Nil
  show ?case by simp
next
  case (Cons c cs)
  let ?s1 = "s\<lparr>journal := journal s @ rerun_events c\<rparr>"
  have 1: "exec_call c s = (Inr (), ?s1)" using Cons.prems by (simp add: exec_call_settled)
  have 2: "\<forall>d \<in> set cs. settled ?s1 d" using Cons.prems by simp
  show ?case using 1 Cons.IH[OF 2] by simp
qed

lemma nodes_parent:
  assumes "(p, c) \<in> set (nodes b t)"
  shows "\<exists>d name. p = join d name \<and> (d = b \<or> (\<exists>sub. (d, PyDict sub) \<in> set (nodes b t)))"
  using assms
  by (induction b t rule: nodes.induct) (auto simp: join_def)

lemma settled_after_run:
  assumes run: "exec (calls b t) s = (Inr u, s')" and c: "c \<in> set (calls b t)"
  shows "settled s' c"
proof (cases c)
  case (Ensure_Base p)
  with exec_ensure_post[OF run] c show ?thesis by simp
next
  case (Open_W p)
  with exec_open_w_post[OF run] c show ?thesis by simp
next
  case (Makedirs_Ok p)
  with c obtain sub where n: "(p, PyDict sub) \<in> set (nodes b t)"
    by (auto simp: Makedirs_Ok_calls)
  from nodes_parent[OF n] obtain d name
    where d: "p = join d name" "d = b \<or> (\<exists>sub. (d, PyDict sub) \<in> set (nodes b t))" by blast
  then have "Ensure_Base d \<in> set (calls b t)" by (simp add: Ensure_Base_calls)
  from exec_ensure_post[OF run this] d(1) have "path_exists s' (butlast p)"
    by (simp add: join_def)
  with exec_makedirs_post[OF run] c Makedirs_Ok show ?thesis by simp
qed

lemma rerun_events_nodes:
  "concat (map rerun_events (concat (map node_calls ns)))
     = map Truncated (map fst (filter (\<lambda>(p, c). c = PyNone) ns))"
proof (induction ns)
  case Nil
  show ?case by simp
next
  case (Cons n ns)
  then show ?case by (cases n rule: node_calls.cases) simp_all
qed

lemma rerun_events_calls:
  "concat (map rerun_events (calls b t)) = map Truncated (file_paths b t)"
  by (simp add: calls_nodes rerun_events_nodes file_paths_def)

text \<open>
  Claim C3. When a run has succeeded, a second run against the same base path and tree
  succeeds too and leaves the same entries: it creates nothing, and all it does is
  truncate the files of the tree again, in the order of the walk.
\<close>

theorem create_structure_twice:
  assumes "fst (create_structure b t s) = Inr ()"
  shows "fst (create_structure b t (snd (create_structure b t s))) = Inr () \<and>
         entries (snd (create_structure b t (snd (create_structure b t s))))
           = entries (snd (create_structure b t s)) \<and>
         news (snd (create_structure b t s))
              (snd (create_structure b t (snd (create_structure b t s))))
           = map Truncated (file_paths b t)"
proof -
  obtain s1 where run: "exec (calls b t) s = (Inr (), s1)"
    using assms by (cases "create_structure b t s") (simp add: create_structure_exec)
  have "\<forall>c \<in> set (calls b t). settled s1 c"
    using settled_after_run[OF run] by blast
  from exec_settled[OF this]
  have again: "exec (calls b t) s1 =
      (Inr (), s1\<lparr>journal := journal s1 @ map Truncated (file_paths b t)\<rparr>)"
    by (simp add: rerun_events_calls)
  show ?thesis using run again by (simp add: create_structure_exec news_def)
qed

lemma scenario_file_paths:
  "file_paths out_dir scenario_tree = [[''out'', ''a.txt''], [''out'', ''sub'', ''b.txt'']]"
  by (simp add: file_paths_def scenario_nodes)

theorem create_structure_twice_witness:
  "fst (create_structure out_dir scenario_tree fs_fresh) = Inr () \<and>
   fst (create_structure out_dir scenario_tree
          (snd (create_structure out_dir scenario_tree fs_fresh))) = Inr () \<and>
   entries (snd (create_structure out_dir scenario_tree
                   (snd (create_structure out_dir scenario_tree fs_fresh))))
     = entries (snd (create_structure out_dir scenario_tree fs_fresh)) \<and>
   news (snd (create_structure out_dir scenario_tree fs_fresh))
        (snd (create_structure out_dir scenario_tree
                (snd (create_structure out_dir scenario_tree fs_fresh))))
     = [Truncated [''out'', ''a.txt''], Truncated [''out'', ''sub'', ''b.txt'']]"
proof -
  have ok: "fst (create_structure out_dir scenario_tree fs_fresh) = Inr ()"
    by (simp add: scenario_fresh_run)
  from create_structure_twice[OF ok] ok show ?thesis
    by (simp only: scenario_file_paths list.map simp_thms)
qed

section \<open>Parents before children\<close>

lemma nodes_parent_before:
  assumes "nodes b t = ns1 @ (p, c) # ns2"
  shows "\<exists>name. p = join (butlast p) name \<and>
           (butlast p = b \<or> (\<exists>sub. (butlast p, PyDict sub) \<in> set ns1))"
  using assms
proof (induction b t arbitrary: ns1 ns2 rule: nodes.induct)
  case (1 base_path)
  then show ?case by simp
next
  case (2 base_path name rest)
  show ?case
  proof (cases ns1)
    case Nil
    with 2(2) show ?thesis by (auto simp: join_def)
  next
    case (Cons n ns1')
    with 2(2) have "nodes base_path rest = ns1' @ (p, c) # ns2" by simp
    from 2(1)[OF this] Cons show ?thesis by auto
  qed
next
  case (3 base_path name sub rest)
  show ?case
  proof (cases ns1)
    case Nil
    with 3(3) show ?thesis by (auto simp: join_def)
  next
    case (Cons n ns1')
    with 3(3) have n: "n = (join base_path name, PyDict sub)"
      and eq: "nodes (join base_path name) sub @ nodes base_path rest = ns1' @ (p, c) # ns2"
      by simp_all
    from eq consider
      (left) us where "nodes (join base_path name) sub = ns1' @ (p, c) # us"
    | (right) us where "ns1' = nodes (join base_path name) sub @ us"
        "nodes base_path rest = us @ (p, c) # ns2"
      by (auto simp: append_eq_append_conv2 append_eq_Cons_conv Cons_eq_append_conv)
    then show ?thesis
    proof cases
      case left
      from 3(1)[OF left] Cons n show ?thesis by auto
    next
      case right
      from 3(2)[OF right(2)] Cons right(1) show ?thesis by auto
    qed
  qed
qed

lemma node_calls_target: "c \<in> set (node_calls n) \<Longrightarrow> target c = fst n"
  by (cases n rule: node_calls.cases) auto

lemma node_calls_split:
  assumes "concat (map node_calls ns) = pre @ c # post"
  shows "\<exists>ns1 n ns2. ns = ns1 @ n # ns2 \<and> c \<in> set (node_calls n) \<and>
           set (concat (map node_calls ns1)) \<subseteq> set pre"
  using assms
proof (induction ns arbitrary: pre)
  case Nil
  then show ?case by simp
next
  case (Cons m ns)
  from Cons.prems have "node_calls m @ concat (map node_calls ns) = pre @ c # post" by simp
  then consider
    (here) us where "node_calls m = pre @ c # us"
  | (later) us where "pre = node_calls m @ us" "concat (map node_calls ns) = us @ c # post"
    by (auto simp: append_eq_append_conv2 append_eq_Cons_conv Cons_eq_append_conv)
  then show ?case
  proof cases
    case here
    then have "m # ns = [] @ m # ns \<and> c \<in> set (node_calls m) \<and>
        set (concat (map node_calls [])) \<subseteq> set pre" by simp
    then show ?thesis by blast
  next
    case later
    from Cons.IH[OF later(2)] obtain ns1 n ns2
      where "ns = ns1 @ n # ns2" "c \<in> set (node_calls n)"
        "set (concat (map node_calls ns1)) \<subseteq> set us" by blast
    with later(1) have "m # ns = (m # ns1) @ n # ns2 \<and> c \<in> set (node_calls n) \<and>
        set (concat (map node_calls (m # ns1))) \<subseteq> set pre" by auto
    then show ?thesis by blast
  qed
qed

lemma calls_parent_before:
  assumes split: "calls b t = pre @ c # post" and ne: "pre \<noteq> []"
  shows "\<exists>name. target c = join (butlast (target c)) name \<and>
           (butlast (target c) = b \<or>
            (butlast (target c) \<in> set (dir_paths b t) \<and>
             Makedirs_Ok (butlast (target c)) \<in> set pre))"
proof -
  from split ne obtain pre' where pre: "pre = Ensure_Base b # pre'"
    and eq: "concat (map node_calls (nodes b t)) = pre' @ c # post"
    by (cases pre) (auto simp: calls_nodes)
  from node_calls_split[OF eq] obtain ns1 n ns2
    where ns: "nodes b t = ns1 @ n # ns2" and c: "c \<in> set (node_calls n)"
      and sub: "set (concat (map node_calls ns1)) \<subseteq> set pre'" by blast
  obtain p k where n: "n = (p, k)" by (cases n)
  have tp: "target c = p" using node_calls_target[OF c] n by simp
  from nodes_parent_before[OF ns[unfolded n]] obtain name
    where j: "p = join (butlast p) name"
      and d: "butlast p = b \<or> (\<exists>sub. (butlast p, PyDict sub) \<in> set ns1)" by blast
  show ?thesis
  proof (cases "butlast p = b")
    case True
    with j tp show ?thesis by auto
  next
    case False
    with d obtain sub' where m: "(butlast p, PyDict sub') \<in> set ns1" by blast
    then have "Makedirs_Ok (butlast p) \<in> set (concat (map node_calls ns1))"
      by (auto intro!: bexI[of _ "(butlast p, PyDict sub')"])
    with sub pre have 1: "Makedirs_Ok (butlast p) \<in> set pre" by auto
    from m ns have "(butlast p, PyDict sub') \<in> set (nodes b t)" by simp
    then have 2: "butlast p \<in> set (dir_paths b t)"
      by (force simp: dir_paths_def)
    from 1 2 j tp show ?thesis by auto
  qed
qed

lemma blocked_call_unchanged:
  assumes f: "entries s (butlast (target c)) = Some (File x)" and ne: "target c \<noteq> []"
  shows "snd (exec_call c s) = s"
proof -
  let ?p = "target c"
  have pe: "parent_error s ?p = Some NotADirectoryError"
    using f ne by (simp add: parent_error_def)
  have mk: "snd (mkdir ?p s) = s" using pe by (simp add: mkdir_def)
  have ex: "butlast ?p = [] \<or> path_exists s (butlast ?p)" using f by (simp add: path_exists_def)
  have md: "snd (makedirs ok ?p s) = s" for ok
    using ex mk by (subst makedirs.simps) (auto simp: make_leaf_snd)
  show ?thesis
  proof (cases c)
    case (Ensure_Base p)
    with md[of False] show ?thesis by (simp add: ensure_base_path_def)
  next
    case (Open_W p)
    with pe show ?thesis by (simp add: open_w_def)
  next
    case (Makedirs_Ok p)
    with md[of True] show ?thesis by simp
  qed
qed

lemma advances_file:
  assumes "advances s s'" "entries s p = Some (File x)"
  shows "\<exists>y. entries s' p = Some (File y)"
  using assms unfolding advances_def by blast

text \<open>
  Claim C4. The walk is the execution of its calls in order. Whenever it reaches a call
  other than the first, the call is on a child of the root or of a directory node, and
  the directory of that parent is already there. The one exception is a base path that
  was a regular file before the run: then the call on a child of the root creates
  nothing.
\<close>

theorem create_structure_parent_first:
  assumes "calls b t = pre @ c # post" and "pre \<noteq> []" and "fst (exec pre s) = Inr ()"
  shows "create_structure b t s = exec (calls b t) s \<and>
         (\<exists>name. target c = join (butlast (target c)) name) \<and>
         (butlast (target c) = b \<or> butlast (target c) \<in> set (dir_paths b t)) \<and>
         (isdir (snd (exec pre s)) (butlast (target c)) \<or>
          (butlast (target c) = b \<and> (\<exists>x. entries s b = Some (File x)) \<and>
           snd (exec_call c (snd (exec pre s))) = snd (exec pre s)))"
proof -
  let ?d = "butlast (target c)"
  obtain s1 where run: "exec pre s = (Inr (), s1)"
    using assms(3) by (cases "exec pre s") simp
  from calls_parent_before[OF assms(1,2)] obtain name
    where j: "target c = join ?d name"
      and d: "?d = b \<or> (?d \<in> set (dir_paths b t) \<and> Makedirs_Ok ?d \<in> set pre)" by blast
  have sem: "isdir s1 ?d \<or> (?d = b \<and> (\<exists>x. entries s b = Some (File x)) \<and>
      snd (exec_call c s1) = s1)"
  proof (cases "Makedirs_Ok ?d \<in> set pre")
    case True
    from exec_makedirs_post[OF run True] show ?thesis by simp
  next
    case False
    with d have b: "?d = b" by blast
    show ?thesis
    proof (cases "\<exists>x. entries s b = Some (File x)")
      case True
      then obtain x where "entries s b = Some (File x)" by blast
      from advances_file[OF _ this, of s1] exec_advances[of s pre] run
      obtain y where "entries s1 ?d = Some (File y)" by (auto simp: b)
      moreover have "target c \<noteq> []"
      proof
        assume "target c = []"
        with j show False by (simp add: join_def)
      qed
      ultimately have "snd (exec_call c s1) = s1" by (rule blocked_call_unchanged)
      with b True show ?thesis by blast
    next
      case False
      from assms(1,2) obtain pre' where pre: "pre = Ensure_Base b # pre'"
        by (cases pre) (auto simp: calls_nodes)
      obtain r s0 where e: "ensure_base_path b s = (r, s0)" by force
      with run pre have r: "r = Inr ()" and rest: "exec pre' s0 = (Inr (), s1)"
        by (auto split: sum.splits)
      have "isdir s0 b" using ensure_base_path_isdir[of b s] e r False by simp
      from advances_isdir[OF _ this, of s1] exec_advances[of s0 pre'] rest
      show ?thesis by (simp add: b)
    qed
  qed
  from j d sem run show ?thesis
    by (auto simp: create_structure_exec)
qed

lemma scenario_calls:
  "calls out_dir scenario_tree =
     [Ensure_Base [''out''], Open_W [''out'', ''a.txt''], Makedirs_Ok [''out'', ''sub''],
      Ensure_Base [''out'', ''sub'']] @ Open_W [''out'', ''sub'', ''b.txt''] # []"
  by (simp add: calls.simps(1) fs_examples join_def)

theorem create_structure_parent_first_witness:
  "fst (exec [Ensure_Base [''out''], Open_W [''out'', ''a.txt''], Makedirs_Ok [''out'', ''sub''],
              Ensure_Base [''out'', ''sub'']] fs_fresh) = Inr () \<and>
   isdir (snd (exec [Ensure_Base [''out''], Open_W [''out'', ''a.txt''],
                     Makedirs_Ok [''out'', ''sub''], Ensure_Base [''out'', ''sub'']] fs_fresh))
     [''out'', ''sub'']"
proof -
  let ?pre = "[Ensure_Base [''out''], Open_W [''out'', ''a.txt''], Makedirs_Ok [''out'', ''sub''],
               Ensure_Base [''out'', ''sub'']]"
  have ne: "?pre \<noteq> []" by simp
  have ok: "fst (exec ?pre fs_fresh) = Inr ()"
    by (simp add: fs_examples run_simps)
  have nf: "\<not> (\<exists>x. entries fs_fresh out_dir = Some (File x))"
    by (simp add: fs_examples)
  from create_structure_parent_first[OF scenario_calls ne ok] nf ok show ?thesis
    by (simp add: out_dir_def)
qed

section \<open>Failure\<close>

lemma makedirs_rel:
  assumes refl: "\<And>s. R s s"
    and trans: "\<And>s s' s''. R s s' \<Longrightarrow> R s' s'' \<Longrightarrow> R s s''"
    and step: "\<And>q s. prefix q p \<Longrightarrow> R s (snd (mkdir q s))"
  shows "prefix name p \<Longrightarrow> R s (snd (makedirs ok name s))"
proof (induction ok name s rule: makedirs.induct)
  case (1 ok name s)
  have leaf: "R s0 (snd (make_leaf ok name s0))" for s0
    using step[OF "1.prems"] by (simp add: make_leaf_snd)
  show ?case
  proof (cases "butlast name \<noteq> [] \<and> \<not> path_exists s (butlast name)")
    case False
    then show ?thesis by (subst makedirs.simps) (auto simp: leaf)
  next
    case True
    obtain r s1 where h: "makedirs ok (butlast name) s = (r, s1)" by force
    have "prefix (butlast name) p"
      using "1.prems" by (metis prefix_order.trans prefixeq_butlast)
    from "1.IH"[OF True this] h have a1: "R s s1" by simp
    show ?thesis
      using True h a1 trans[OF a1 leaf[of s1]]
      by (subst makedirs.simps) (auto split: sum.splits)
  qed
qed

lemma exec_rel:
  assumes refl: "\<And>s. R s s"
    and trans: "\<And>s s' s''. R s s' \<Longrightarrow> R s' s'' \<Longrightarrow> R s s''"
    and step: "\<And>c s. c \<in> set cs \<Longrightarrow> R s (snd (exec_call c s))"
  shows "R s (snd (exec cs s))"
  using step
proof (induction cs arbitrary: s)
  case Nil
  show ?case by (simp add: refl)
next
  case (Cons c cs)
  obtain r s1 where h: "exec_call c s = (r, s1)" by force
  have a1: "R s s1" using Cons.prems[of c s] h by simp
  show ?case
  proof (cases r)
    case (Inl e)
    with h a1 show ?thesis by simp
  next
    case (Inr u)
    have "R s1 (snd (exec cs s1))" by (rule Cons.IH) (simp add: Cons.prems)
    with h Inr trans[OF a1] show ?thesis by simp
  qed
qed

lemma mkdir_map_le: "entries s \<subseteq>\<^sub>m entries (snd (mkdir q s))"
proof (cases "mkdir q s")
  case (Pair r s')
  then show ?thesis
    by (cases rule: mkdir_cases) (auto simp: Pair map_le_def)
qed

lemma makedirs_map_le: "entries s \<subseteq>\<^sub>m entries (snd (makedirs ok p s))"
  by (rule makedirs_rel[where R = "\<lambda>s s'. entries s \<subseteq>\<^sub>m entries s'" and p = p])
     (auto intro: map_le_trans mkdir_map_le)

lemma open_w_failed: "fst (open_w p s) = Inl e \<Longrightarrow> snd (open_w p s) = s"
  by (cases "open_w p s") (auto elim: open_w_cases)

lemma failed_call_map_le:
  assumes "fst (exec_call c s) = Inl e"
  shows "entries s \<subseteq>\<^sub>m entries (snd (exec_call c s))"
proof (cases c)
  case (Ensure_Base p)
  then show ?thesis by (simp add: ensure_base_path_def makedirs_map_le)
next
  case (Open_W p)
  with assms show ?thesis by (simp add: open_w_failed)
next
  case (Makedirs_Ok p)
  then show ?thesis by (simp add: makedirs_map_le)
qed

text \<open>
  Claim C5. When the walk has reached a call and that call fails, the run ends there
  with that call's error: the state returned is the one the failing call left, so no
  later call is made. Nothing is rolled back: every entry that was there when the call
  was made is still there, unchanged, and everything the run has created is on disk as
  it was created.
\<close>

theorem create_structure_first_failure:
  assumes "calls b t = pre @ c # post" and "fst (exec pre s) = Inr ()"
    and "fst (exec_call c (snd (exec pre s))) = Inl e"
  shows "create_structure b t s = (Inl e, snd (exec_call c (snd (exec pre s)))) \<and>
         entries (snd (exec pre s)) \<subseteq>\<^sub>m entries (snd (create_structure b t s)) \<and>
         (\<forall>ev \<in> set (news s (snd (create_structure b t s))).
            recorded (snd (create_structure b t s)) ev)"
proof -
  obtain s1 where pre: "exec pre s = (Inr (), s1)"
    using assms(2) by (cases "exec pre s") simp
  obtain sf where c: "exec_call c s1 = (Inl e, sf)"
    using assms(3) pre by (cases "exec_call c s1") simp
  have run: "create_structure b t s = (Inl e, sf)"
    using pre c by (simp add: create_structure_exec assms(1) exec_append)
  have "entries s1 \<subseteq>\<^sub>m entries sf"
    using failed_call_map_le[of c s1 e] c by simp
  moreover have "advances s sf"
    using exec_advances[of s "calls b t"] run by (simp add: create_structure_exec)
  ultimately show ?thesis
    using run pre c by (simp add: advances_def)
qed

theorem create_structure_first_failure_witness:
  "create_structure out_dir scenario_tree fs_no_sub =
     (Inl PermissionError,
      \<lparr>entries = [[] \<mapsto> Dir, [''out''] \<mapsto> Dir, [''out'', ''a.txt''] \<mapsto> File []],
       denied = deny_sub,
       journal = [Created_Dir [''out''], Created_File [''out'', ''a.txt'']],
       stdout = []\<rparr>)"
proof -
  let ?pre = "[Ensure_Base [''out''], Open_W [''out'', ''a.txt'']]"
  have split: "calls out_dir scenario_tree =
      ?pre @ Makedirs_Ok [''out'', ''sub''] #
        [Ensure_Base [''out'', ''sub''], Open_W [''out'', ''sub'', ''b.txt'']]"
    by (simp add: scenario_calls)
  have pre: "exec ?pre fs_no_sub =
      (Inr (),
       \<lparr>entries = [[] \<mapsto> Dir, [''out''] \<mapsto> Dir, [''out'', ''a.txt''] \<mapsto> File []],
        denied = deny_sub,
        journal = [Created_Dir [''out''], Created_File [''out'', ''a.txt'']],
        stdout = []\<rparr>)"
    by (simp add: fs_examples fs_no_sub_def deny_sub_def run_simps)
  have ok: "fst (exec ?pre fs_no_sub) = Inr ()" by (simp only: pre fst_conv)
  have bad: "fst (exec_call (Makedirs_Ok [''out'', ''sub'']) (snd (exec ?pre fs_no_sub)))
      = Inl PermissionError"
    by (simp only: pre snd_conv) (simp add: fs_examples fs_no_sub_def deny_sub_def run_simps)
  have same: "snd (exec_call (Makedirs_Ok [''out'', ''sub'']) (snd (exec ?pre fs_no_sub)))
      = snd (exec ?pre fs_no_sub)"
    by (simp only: pre snd_conv) (simp add: fs_examples fs_no_sub_def deny_sub_def run_simps)
  from create_structure_first_failure[OF split ok bad]
  have r: "create_structure out_dir scenario_tree fs_no_sub =
      (Inl PermissionError,
       snd (exec_call (Makedirs_Ok [''out'', ''sub'']) (snd (exec ?pre fs_no_sub))))"
    by (rule conjunct1)
  show ?thesis by (simp only: r same) (simp only: pre snd_conv)
qed

section \<open>What a run leaves alone\<close>

lemma mkdir_frame: "q \<noteq> p \<Longrightarrow> entries (snd (mkdir p s)) q = entries s q"
proof (cases "mkdir p s")
  case (Pair r s')
  assume "q \<noteq> p"
  with Pair show ?thesis by (cases rule: mkdir_cases) (auto simp: Pair)
qed

lemma makedirs_frame:
  assumes "\<not> prefix q p"
  shows "entries (snd (makedirs ok p s)) q = entries s q"
proof -
  have "prefix p p \<Longrightarrow> entries (snd (makedirs ok p s)) q = entries s q"
  proof (rule makedirs_rel[where R = "\<lambda>s s'. entries s' q = entries s q" and p = p])
    fix q' s0 assume "prefix q' p"
    with assms have "q \<noteq> q'" by auto
    then show "entries (snd (mkdir q' s0)) q = entries s0 q" by (rule mkdir_frame)
  qed simp_all
  then show ?thesis by simp
qed

lemma open_w_frame: "q \<noteq> p \<Longrightarrow> entries (snd (open_w p s)) q = entries s q"
proof (cases "open_w p s")
  case (Pair r s')
  assume "q \<noteq> p"
  with Pair show ?thesis by (cases rule: open_w_cases) (auto simp: Pair)
qed

lemma exec_call_frame:
  assumes "\<not> prefix q (target c)"
  shows "entries (snd (exec_call c s)) q = entries s q"
proof (cases c)
  case (Ensure_Base p)
  with assms show ?thesis by (simp add: ensure_base_path_def makedirs_frame)
next
  case (Open_W p)
  with assms have "q \<noteq> p" by auto
  with Open_W show ?thesis by (simp add: open_w_frame)
next
  case (Makedirs_Ok p)
  with assms show ?thesis by (simp add: makedirs_frame)
qed

lemma exec_frame:
  assumes "\<forall>c \<in> set cs. \<not> prefix q (target c)"
  shows "entries (snd (exec cs s)) q = entries s q"
  by (rule exec_rel[where R = "\<lambda>s s'. entries s' q = entries s q"])
     (use assms in \<open>auto simp: exec_call_frame\<close>)

lemma exec_call_keeps:
  assumes "entries s q = Some x" "c \<noteq> Open_W q"
  shows "entries (snd (exec_call c s)) q = Some x"
proof -
  have md: "entries (snd (makedirs ok p s)) q = Some x" for ok p
    using makedirs_map_le[of s ok p] assms(1) by (auto simp: map_le_def dom_def)
  show ?thesis
  proof (cases c)
    case (Ensure_Base p)
    with assms md show ?thesis by (simp add: ensure_base_path_def)
  next
    case (Open_W p)
    with assms have "q \<noteq> p" by auto
    with Open_W assms show ?thesis by (simp add: open_w_frame)
  next
    case (Makedirs_Ok p)
    with md show ?thesis by simp
  qed
qed

lemma exec_keeps:
  assumes "entries s q = Some x" "Open_W q \<notin> set cs"
  shows "entries (snd (exec cs s)) q = Some x"
proof -
  have "entries s q = Some x \<longrightarrow> entries (snd (exec cs s)) q = Some x"
  proof (rule exec_rel[where R = "\<lambda>s s'. entries s q = Some x \<longrightarrow> entries s' q = Some x"])
    fix c s0 assume "c \<in> set cs"
    with assms(2) have "c \<noteq> Open_W q" by auto
    then show "entries s0 q = Some x \<longrightarrow> entries (snd (exec_call c s0)) q = Some x"
      by (simp add: exec_call_keeps)
  qed simp_all
  with assms(1) show ?thesis by simp
qed


lemma nodes_prefix_closed:
  assumes "(p, c) \<in> set (nodes b t)" "prefix q p" "strict_prefix b q"
  shows "\<exists>k. (q, k) \<in> set (nodes b t)"
  using assms
proof (induction "length p" arbitrary: p c rule: less_induct)
  case less
  from nodes_parent[OF less.prems(1)] obtain d name
    where d: "p = join d name" "d = b \<or> (\<exists>sub. (d, PyDict sub) \<in> set (nodes b t))" by blast
  show ?case
  proof (cases "q = p")
    case True
    with less.prems(1) show ?thesis by blast
  next
    case False
    with less.prems(2) d(1) have qd: "prefix q d" by (simp add: join_def)
    show ?thesis
    proof (cases "d = b")
      case True
      with qd less.prems(3) show ?thesis by auto
    next
      case False
      with d(2) obtain sub where "(d, PyDict sub) \<in> set (nodes b t)" by blast
      moreover have "length d < length p" using d(1) by (simp add: join_def)
      ultimately show ?thesis using less.hyps qd less.prems(3) by blast
    qed
  qed
qed

lemma calls_target:
  assumes "c \<in> set (calls b t)"
  shows "target c = b \<or> (\<exists>k. (target c, k) \<in> set (nodes b t))"
proof (cases c)
  case (Ensure_Base p)
  with assms show ?thesis by (auto simp: Ensure_Base_calls)
next
  case (Open_W p)
  with assms show ?thesis by (auto simp: Open_W_calls)
next
  case (Makedirs_Ok p)
  with assms show ?thesis by (auto simp: Makedirs_Ok_calls)
qed

text \<open>
  On components: a path below the base path that is not the computed path of any node,
  and everything below it, is after the run what it was before; and an entry that was
  there is unchanged unless it is at the computed path of a file marker.
\<close>

lemma create_structure_frame_components:
  "(strict_prefix b p \<and> p \<notin> fst ` set (nodes b t) \<and> prefix p q \<longrightarrow>
      entries (snd (create_structure b t s)) q = entries s q) \<and>
   (entries s q = Some x \<and> q \<notin> set (file_paths b t) \<longrightarrow>
      entries (snd (create_structure b t s)) q = Some x)"
proof (intro conjI impI)
  assume a: "strict_prefix b p \<and> p \<notin> fst ` set (nodes b t) \<and> prefix p q"
  have "\<not> prefix q (target c)" if c: "c \<in> set (calls b t)" for c
  proof
    assume pq: "prefix q (target c)"
    from a have bq: "strict_prefix b q" by (auto simp: strict_prefix_def)
    from calls_target[OF c] show False
    proof
      assume "target c = b"
      with pq bq show False by auto
    next
      assume "\<exists>k. (target c, k) \<in> set (nodes b t)"
      then obtain k where k: "(target c, k) \<in> set (nodes b t)" by blast
      from nodes_prefix_closed[OF k pq bq] obtain k' where k': "(q, k') \<in> set (nodes b t)"
        by blast
      from a nodes_prefix_closed[OF k', of p] obtain k'' where "(p, k'') \<in> set (nodes b t)"
        by blast
      with a show False by force
    qed
  qed
  then show "entries (snd (create_structure b t s)) q = entries s q"
    by (simp add: create_structure_exec exec_frame)
next
  assume a: "entries s q = Some x \<and> q \<notin> set (file_paths b t)"
  then have "Open_W q \<notin> set (calls b t)"
    by (force simp: Open_W_calls file_paths_def)
  with a show "entries (snd (create_structure b t s)) q = Some x"
    by (simp add: create_structure_exec exec_keeps)
qed

lemma scenario_used_run:
  "create_structure out_dir scenario_tree fs_used =
     (Inr (),
      \<lparr>entries = [[] \<mapsto> Dir, [''out''] \<mapsto> Dir, [''out'', ''a.txt''] \<mapsto> File [],
                  [''out'', ''notes.md''] \<mapsto> File ''keep'',
                  [''out'', ''sub''] \<mapsto> Dir, [''out'', ''sub'', ''b.txt''] \<mapsto> File []],
       denied = allow_all,
       journal = [Truncated [''out'', ''a.txt''],
                  Created_Dir [''out'', ''sub''], Created_File [''out'', ''sub'', ''b.txt'']],
       stdout = []\<rparr>)"
  by (simp add: fs_examples run_simps fun_upd_twist)

text \<open>
  The same for the program on its strings, whatever the names of the tree are: a call
  changes an entry that is there only when it opens a file for writing, and then at the
  place the string resolves to.
\<close>

lemmas str_simps = create_structure_str.simps(1)
     os_ensure_base_path_def os_path_exists_def locate_def start_def startswith_sep_def
     endswith_sep_def components_def sep_def step_def posix_join_def os_makedirs.simps
     split_name_def posix_split_def rstrip_sep_def os_make_leaf_def os_mkdir_def
     os_path_isdir_def os_open_w_def
     mkdir_def open_w_def parent_error_def path_exists_def isdir_def Let_def

lemma walk_place: "walk s d cs = Inr q \<Longrightarrow> q = foldl step d cs"
  by (induction cs arbitrary: d) (auto split: option.splits entry.splits)

lemma locate_place: "locate cwd s p = Inr q \<Longrightarrow> q = place cwd p"
  by (auto simp: locate_def place_def walk_place split: if_splits)

lemma os_mkdir_map_le: "entries s \<subseteq>\<^sub>m entries (snd (os_mkdir cwd p s))"
  by (cases "locate cwd s p") (simp_all add: os_mkdir_def mkdir_map_le)

lemma os_make_leaf_snd: "snd (os_make_leaf cwd ok name s) = snd (os_mkdir cwd name s)"
  by (cases "os_mkdir cwd name s"; cases "fst (os_mkdir cwd name s)")
     (auto simp: os_make_leaf_def)

lemma os_make_leaf_map_le: "entries s \<subseteq>\<^sub>m entries (snd (os_make_leaf cwd ok name s))"
  by (simp add: os_make_leaf_snd os_mkdir_map_le)

lemma os_makedirs_map_le: "entries s \<subseteq>\<^sub>m entries (snd (os_makedirs cwd ok name s))"
proof (induction cwd ok name s rule: os_makedirs.induct)
  case (1 cwd ok name s)
  let ?head = "fst (split_name name)"
  let ?tail = "snd (split_name name)"
  let ?c = "?head \<noteq> [] \<and> ?tail \<noteq> [] \<and> \<not> os_path_exists cwd s ?head"
  show ?case
  proof (cases ?c)
    case False
    then have "os_makedirs cwd ok name s = os_make_leaf cwd ok name s"
      by (subst os_makedirs.simps) auto
    then show ?thesis by (simp add: os_make_leaf_map_le)
  next
    case True
    obtain r s1 where h: "os_makedirs cwd ok ?head s = (r, s1)" by force
    from 1[OF True] h have le1: "entries s \<subseteq>\<^sub>m entries s1" by simp
    have "snd (os_makedirs cwd ok name s) = s1 \<or>
          snd (os_makedirs cwd ok name s) = snd (os_make_leaf cwd ok name s1)"
      using True h by (subst (1 2) os_makedirs.simps) (cases r; auto)
    then show ?thesis
      using le1 os_make_leaf_map_le[of s1 cwd ok name] by (auto intro: map_le_trans)
  qed
qed

lemma os_ensure_base_path_map_le:
  "entries s \<subseteq>\<^sub>m entries (snd (os_ensure_base_path cwd b s))"
  by (simp add: os_ensure_base_path_def os_makedirs_map_le)

lemma os_open_w_frame:
  assumes "q \<noteq> place cwd p"
  shows "entries (snd (os_open_w cwd p s)) q = entries s q"
proof (cases "locate cwd s p")
  case (Inl e)
  then show ?thesis by (simp add: os_open_w_def)
next
  case (Inr l)
  with assms have "q \<noteq> l" by (auto dest: locate_place)
  with Inr show ?thesis by (simp add: os_open_w_def open_w_frame)
qed

lemma map_le_keeps: "m \<subseteq>\<^sub>m m' \<Longrightarrow> m q = Some x \<Longrightarrow> m' q = Some x"
  by (auto simp: map_le_def dom_def)

lemma create_structure_str_keeps:
  "entries s q = Some x \<Longrightarrow> q \<notin> place cwd ` set (file_strings b t) \<Longrightarrow>
     entries (snd (create_structure_str cwd b t s)) q = Some x"
  "entries s q = Some x \<Longrightarrow> q \<notin> place cwd ` set (file_strings b t) \<Longrightarrow>
     entries (snd (for_items_str cwd b t s)) q = Some x"
proof (induction cwd b t s and cwd b t s rule: create_structure_str_for_items_str.induct)
  case (1 cwd base_path tree s)
  show ?case
  proof (cases "os_ensure_base_path cwd base_path s")
    case (Pair r s')
    have k: "entries s' q = Some x"
      using os_ensure_base_path_map_le[of s cwd base_path] Pair "1.prems"(1)
      by (auto dest: map_le_keeps)
    show ?thesis
    proof (cases r)
      case (Inl e)
      with Pair k show ?thesis by (simp add: create_structure_str.simps(1))
    next
      case (Inr u)
      from "1.IH"[OF Pair[symmetric] Inr k "1.prems"(2)] Pair Inr show ?thesis
        by (simp add: create_structure_str.simps(1))
    qed
  qed
next
  case (2 cwd base_path s)
  then show ?case by simp
next
  case (3 cwd base_path name rest s)
  from "3.prems"(2) have ne: "q \<noteq> place cwd (posix_join base_path name)"
    and rest: "q \<notin> place cwd ` set (file_strings base_path rest)"
    by (auto simp: file_strings_def)
  show ?case
  proof (cases "os_open_w cwd (posix_join base_path name) s")
    case (Pair r s')
    have k: "entries s' q = Some x"
      using os_open_w_frame[OF ne, of s] Pair "3.prems"(1) by simp
    show ?thesis
    proof (cases r)
      case (Inl e)
      with Pair k show ?thesis by simp
    next
      case (Inr u)
      from "3.IH"[OF Pair[symmetric] Inr k rest] Pair Inr show ?thesis by simp
    qed
  qed
next
  case (4 cwd base_path name sub rest s)
  from "4.prems"(2) have sub: "q \<notin> place cwd ` set (file_strings (posix_join base_path name) sub)"
    and rest: "q \<notin> place cwd ` set (file_strings base_path rest)"
    by (auto simp: file_strings_def)
  show ?case
  proof (cases "os_makedirs cwd True (posix_join base_path name) s")
    case (Pair r s')
    have k: "entries s' q = Some x"
      using os_makedirs_map_le[of s cwd True "posix_join base_path name"] Pair "4.prems"(1)
      by (auto dest: map_le_keeps)
    show ?thesis
    proof (cases r)
      case (Inl e)
      with Pair k show ?thesis by simp
    next
      case (Inr u)
      note mk = Pair Inr
      have k2: "entries (snd (create_structure_str cwd (posix_join base_path name) sub s')) q
          = Some x"
        by (rule "4.IH"(1)[OF mk(1)[symmetric] mk(2) k sub])
      show ?thesis
      proof (cases "create_structure_str cwd (posix_join base_path name) sub s'")
        case (Pair r2 s2)
        with k2 have k2': "entries s2 q = Some x" by simp
        show ?thesis
        proof (cases r2)
          case (Inl e)
          with mk Pair k2' show ?thesis by simp
        next
          case (Inr u2)
          from "4.IH"(2)[OF mk(1)[symmetric] mk(2) Pair[symmetric] Inr k2' rest] mk Pair Inr
          show ?thesis by simp
        qed
      qed
    qed
  qed
qed



lemma pieces_nonempty: "pieces p \<noteq> []"
  by (cases p) auto

lemma pieces_plain: "sep \<notin> set n \<Longrightarrow> pieces n = [n]"
  by (induction n) auto

lemma pieces_append_sep: "pieces (a @ sep # b) = pieces a @ pieces b"
  by (induction a) (auto simp: pieces_nonempty)

lemma render_snoc: "b \<noteq> [] \<Longrightarrow> render (b @ [n]) = render b @ sep # n"
  by (induction b rule: render.induct) auto

lemma components_render: "list_all plain b \<Longrightarrow> components (render b) = b"
proof (induction b rule: rev_induct)
  case Nil
  show ?case by (simp add: components_def)
next
  case (snoc n b)
  then have n: "sep \<notin> set n" "n \<noteq> []" and b: "components (render b) = b"
    by (auto simp: plain_def)
  show ?case
  proof (cases "b = []")
    case True
    with n show ?thesis by (simp add: components_def pieces_plain)
  next
    case False
    with n b show ?thesis
      by (simp add: render_snoc components_def pieces_append_sep pieces_plain)
  qed
qed

lemma render_ends:
  assumes "list_all plain b" "b \<noteq> []"
  shows "render b \<noteq> []" "hd (render b) \<noteq> sep" "last (render b) \<noteq> sep"
proof -
  from assms obtain n b' where b: "b = b' @ [n]" by (cases b rule: rev_cases) auto
  with assms have n: "n \<noteq> []" "sep \<notin> set n" by (auto simp: plain_def)
  from assms obtain m b'' where b2: "b = m # b''" by (cases b) auto
  with assms have m: "m \<noteq> []" "sep \<notin> set m" by (auto simp: plain_def)
  show "render b \<noteq> []" using b n by (cases "b' = []") (auto simp: render_snoc)
  have "last n \<noteq> sep" using n by (metis last_in_set)
  then show "last (render b) \<noteq> sep" using b n by (cases "b' = []") (auto simp: render_snoc)
  have "hd (render b) = hd m" using b2 m by (cases b'') auto
  with m show "hd (render b) \<noteq> sep" by (cases m) auto
qed

lemma posix_join_render:
  assumes "list_all plain b" "b \<noteq> []" "plain n"
  shows "posix_join (render b) n = render (b @ [n])"
proof -
  from assms(3) have "\<not> startswith_sep n" by (cases n) (auto simp: plain_def startswith_sep_def)
  with render_ends[OF assms(1,2)] assms(2) show ?thesis
    by (simp add: posix_join_def endswith_sep_def render_snoc)
qed

lemma foldl_step_plain: "list_all plain b \<Longrightarrow> foldl step d b = d @ b"
  by (induction b arbitrary: d) (auto simp: step_def plain_def)

lemma place_render:
  assumes "list_all plain b" "b \<noteq> []"
  shows "place cwd (render b) = cwd @ b"
  using render_ends[OF assms] assms(1)
  by (simp add: place_def start_def startswith_sep_def components_render foldl_step_plain)

lemma node_strings_plain:
  "plain_tree t \<Longrightarrow> list_all plain b \<Longrightarrow> b \<noteq> [] \<Longrightarrow>
     map (\<lambda>(p, c). (place cwd p, c)) (node_strings (render b) t) = nodes (cwd @ b) t"
proof (induction t arbitrary: b rule: plain_tree.induct)
  case 1
  show ?case by simp
next
  case (2 name rest)
  then show ?case by (simp add: posix_join_render place_render join_def)
next
  case (3 name sub rest)
  from 3 have "list_all plain (b @ [name])" by simp
  with 3 show ?case
    using "3.IH"(1)[of "b @ [name]"]
    by (simp add: posix_join_render place_render join_def)
qed

lemma file_strings_plain:
  assumes "plain_tree t" "list_all plain b" "b \<noteq> []"
  shows "map (place cwd) (file_strings (render b) t) = file_paths (cwd @ b) t"
proof -
  have "file_paths (cwd @ b) t
      = map fst (filter (\<lambda>(p, c). c = PyNone)
          (map (\<lambda>(p, c). (place cwd p, c)) (node_strings (render b) t)))"
    by (simp add: file_paths_def node_strings_plain[OF assms])
  also have "\<dots> = map (place cwd) (file_strings (render b) t)"
    by (simp add: file_strings_def filter_map comp_def split_def)
  finally show ?thesis by simp
qed

lemma structure_literal_plain: "plain base_dir \<and> plain_tree structure_literal"
  by (simp add: base_dir_def structure_literal_def plain_def sep_def)

text \<open>
  Claim C6, as amended, for a filesystem of directories and regular files without hard
  or symbolic links. An entry that is there before a run is after the run, whether it
  succeeded or failed, exactly what it was (same kind, same contents), unless it lies
  at the place that the computed path of a file marker resolves to. Where the base
  path is made of plain components and every name of the tree is a plain component,
  the computed path of a node resolves to its components below the working directory,
  so that every entry there is kept that is not at the computed path of a file marker.
\<close>

theorem create_structure_str_frame:
  "(entries s q = Some x \<and> q \<notin> place cwd ` set (file_strings base_path t) \<longrightarrow>
      entries (snd (create_structure_str cwd base_path t s)) q = Some x) \<and>
   (b \<noteq> [] \<and> list_all plain b \<and> plain_tree t \<and>
    entries s q = Some x \<and> q \<notin> set (file_paths (cwd @ b) t) \<longrightarrow>
      entries (snd (create_structure_str cwd (render b) t s)) q = Some x)"
proof (intro conjI impI)
  assume "entries s q = Some x \<and> q \<notin> place cwd ` set (file_strings base_path t)"
  then show "entries (snd (create_structure_str cwd base_path t s)) q = Some x"
    by (simp add: create_structure_str_keeps(1))
next
  assume a: "b \<noteq> [] \<and> list_all plain b \<and> plain_tree t \<and>
    entries s q = Some x \<and> q \<notin> set (file_paths (cwd @ b) t)"
  then have "set (file_paths (cwd @ b) t) = place cwd ` set (file_strings (render b) t)"
    using file_strings_plain[of t b cwd] by (metis set_map)
  with a show "entries (snd (create_structure_str cwd (render b) t s)) q = Some x"
    by (simp add: create_structure_str_keeps(1))
qed

lemma dot_run:
  "create_structure_str [] ''out'' dot_tree fs_used =
     (Inr (),
      \<lparr>entries = [[] \<mapsto> Dir, [''out''] \<mapsto> Dir, [''out'', ''a.txt''] \<mapsto> File ''old'',
                  [''out'', ''notes.md''] \<mapsto> File []],
       denied = allow_all, journal = [Truncated [''out'', ''notes.md'']], stdout = []\<rparr>)"
  by (simp add: dot_tree_def fs_used_def allow_all_def str_simps)

theorem create_structure_str_frame_witness:
  "entries fs_used [''out'', ''a.txt''] = Some (File ''old'') \<and>
   entries (snd (create_structure_str [] ''out'' dot_tree fs_used)) [''out'', ''a.txt'']
     = Some (File ''old'') \<and>
   entries fs_used [''out'', ''notes.md''] = Some (File ''keep'') \<and>
   entries (snd (create_structure_str [] (render out_dir) scenario_tree fs_used))
     [''out'', ''notes.md''] = Some (File ''keep'')"
proof -
  have 1: "entries fs_used [''out'', ''a.txt''] = Some (File ''old'') \<and>
      [''out'', ''a.txt''] \<notin> place [] ` set (file_strings ''out'' dot_tree)"
    by (simp add: fs_used_def dot_tree_def file_strings_def place_def str_simps)
  have 2: "out_dir \<noteq> [] \<and> list_all plain out_dir \<and> plain_tree scenario_tree \<and>
      entries fs_used [''out'', ''notes.md''] = Some (File ''keep'') \<and>
      [''out'', ''notes.md''] \<notin> set (file_paths ([] @ out_dir) scenario_tree)"
    by (simp add: scenario_file_paths)
       (simp add: fs_used_def out_dir_def scenario_tree_def plain_def sep_def)
  from create_structure_str_frame[of fs_used "[''out'', ''a.txt'']" "File ''old''" "[]"
      "''out''" dot_tree out_dir]
    create_structure_str_frame[of fs_used "[''out'', ''notes.md'']" "File ''keep''" "[]"
      "''out''" scenario_tree out_dir] 1 2
  show ?thesis by simp
qed

text \<open>
  Claim C6 as stated fails for a name that is not a plain component. Under the base
  path \<^verbatim>\<open>out\<close> the tree \<^verbatim>\<open>{".": {"notes.md": FILE}}\<close> has the nodes \<^verbatim>\<open>out/.\<close> and
  \<^verbatim>\<open>out/./notes.md\<close>. The file \<^verbatim>\<open>out/notes.md\<close> is there before the run, under the base
  path, and its path is not the computed path of any node; the run succeeds and
  leaves it empty.
\<close>

theorem create_structure_str_dot_counterexample:
  "map fst (node_strings ''out'' dot_tree) = [''out/.'', ''out/./notes.md''] \<and>
   ''out/notes.md'' \<notin> fst ` set (node_strings ''out'' dot_tree) \<and>
   locate [] fs_used ''out'' = Inr [''out''] \<and>
   locate [] fs_used ''out/notes.md'' = Inr [''out'', ''notes.md''] \<and>
   entries fs_used [''out'', ''notes.md''] = Some (File ''keep'') \<and>
   fst (create_structure_str [] ''out'' dot_tree fs_used) = Inr () \<and>
   entries (snd (create_structure_str [] ''out'' dot_tree fs_used)) [''out'', ''notes.md'']
     = Some (File [])"
  by (simp add: dot_run) (simp add: dot_tree_def fs_used_def str_simps)

section \<open>Plain names: the strings and the components agree\<close>

text \<open>
  Where the base path and the names of the tree are plain components, and the
  filesystem is tree shaped with the working directory in it, the materializer on
  strings is the materializer on components: the same result and the same state,
  call by call. The computed path of a node is then the list of its components below
  the working directory.
\<close>

lemma tree_shaped_above:
  assumes "tree_shaped s"
  shows "entries s (d @ r) \<noteq> None \<Longrightarrow> r \<noteq> [] \<Longrightarrow> isdir s d"
proof (induction r rule: rev_induct)
  case Nil
  then show ?case by simp
next
  case (snoc c r)
  from assms snoc.prems(1) have up: "entries s (d @ r) = Some Dir"
    unfolding tree_shaped_def by (metis append_assoc butlast_snoc snoc_eq_iff_butlast)
  show ?case
  proof (cases "r = []")
    case True
    with up show ?thesis by (simp add: isdir_def)
  next
    case False
    with up snoc.IH show ?thesis by simp
  qed
qed

lemma tree_shaped_create:
  assumes "tree_shaped s" "parent_error s p = None" "p \<noteq> []" "entries s p = None"
  shows "tree_shaped (s\<lparr>entries := (entries s)(p \<mapsto> x), journal := j\<rparr>)"
  unfolding tree_shaped_def
proof (intro allI impI)
  fix q
  assume q: "q \<noteq> [] \<and>
    entries (s\<lparr>entries := (entries s)(p \<mapsto> x), journal := j\<rparr>) q \<noteq> None"
  from assms(2,3) have par: "entries s (butlast p) = Some Dir"
    by (simp add: parent_error_None isdir_def)
  have "entries s (butlast q) = Some Dir"
  proof (cases "q = p")
    case True
    with par show ?thesis by simp
  next
    case False
    with q assms(1) show ?thesis by (simp add: tree_shaped_def)
  qed
  moreover from this assms(4) have "butlast q \<noteq> p" by auto
  ultimately show "entries (s\<lparr>entries := (entries s)(p \<mapsto> x), journal := j\<rparr>) (butlast q)
      = Some Dir"
    by simp
qed

lemma tree_shaped_truncate:
  assumes "tree_shaped s" "entries s p = Some (File c)"
  shows "tree_shaped (s\<lparr>entries := (entries s)(p \<mapsto> File []), journal := j\<rparr>)"
  unfolding tree_shaped_def
proof (intro allI impI)
  fix q
  assume q: "q \<noteq> [] \<and>
    entries (s\<lparr>entries := (entries s)(p \<mapsto> File []), journal := j\<rparr>) q \<noteq> None"
  with assms(2) have "entries s q \<noteq> None" by (cases "q = p") auto
  with q assms(1) have up: "entries s (butlast q) = Some Dir" by (simp add: tree_shaped_def)
  with assms(2) have "butlast q \<noteq> p" by auto
  with up show "entries (s\<lparr>entries := (entries s)(p \<mapsto> File []), journal := j\<rparr>) (butlast q)
      = Some Dir"
    by simp
qed

lemma mkdir_tree_shaped: "tree_shaped s \<Longrightarrow> tree_shaped (snd (mkdir p s))"
proof (cases "mkdir p s")
  case (Pair r s')
  assume t: "tree_shaped s"
  from Pair show ?thesis
  proof (cases rule: mkdir_cases)
    case (fail e)
    with Pair t show ?thesis by simp
  next
    case ok
    with Pair tree_shaped_create[OF t ok(4) ok(3) ok(2)] show ?thesis by simp
  qed
qed

lemma open_w_tree_shaped: "tree_shaped s \<Longrightarrow> tree_shaped (snd (open_w p s))"
proof (cases "open_w p s")
  case (Pair r s')
  assume t: "tree_shaped s"
  from Pair show ?thesis
  proof (cases rule: open_w_cases)
    case (fail e)
    with Pair t show ?thesis by simp
  next
    case create
    with Pair tree_shaped_create[OF t create(4) create(3) create(2)] show ?thesis by simp
  next
    case (truncate c)
    with Pair tree_shaped_truncate[OF t truncate(2)] show ?thesis by simp
  qed
qed

lemma makedirs_tree_shaped: "tree_shaped s \<Longrightarrow> tree_shaped (snd (makedirs ok p s))"
proof -
  have "tree_shaped s \<longrightarrow> tree_shaped (snd (makedirs ok p s))"
    by (rule makedirs_rel[where R = "\<lambda>s s'. tree_shaped s \<longrightarrow> tree_shaped s'" and p = p])
       (auto simp: mkdir_tree_shaped)
  then show "tree_shaped s \<Longrightarrow> tree_shaped (snd (makedirs ok p s))" by simp
qed

lemma exec_tree_shaped: "tree_shaped s \<Longrightarrow> tree_shaped (snd (exec cs s))"
proof -
  have "tree_shaped s \<longrightarrow> tree_shaped (snd (exec cs s))"
  proof (rule exec_rel[where R = "\<lambda>s s'. tree_shaped s \<longrightarrow> tree_shaped s'"])
    fix c s0
    show "tree_shaped s0 \<longrightarrow> tree_shaped (snd (exec_call c s0))"
      by (cases c) (auto simp: ensure_base_path_def makedirs_tree_shaped open_w_tree_shaped)
  qed simp_all
  then show "tree_shaped s \<Longrightarrow> tree_shaped (snd (exec cs s))" by simp
qed

lemma walk_plain:
  assumes "tree_shaped s"
  shows "list_all plain r \<Longrightarrow> r \<noteq> [] \<Longrightarrow> path_exists s (d @ butlast r) \<Longrightarrow>
     walk s d r = (case parent_error s (d @ r) of None \<Rightarrow> Inr (d @ r) | Some e \<Rightarrow> Inl e)"
proof (induction r arbitrary: d)
  case Nil
  then show ?case by simp
next
  case (Cons c cs)
  from Cons.prems(1) have c: "step d c = d @ [c]" by (auto simp: step_def plain_def)
  show ?case
  proof (cases "cs = []")
    case True
    with c show ?thesis
      by (auto simp: parent_error_def split: option.splits entry.splits)
  next
    case False
    with Cons.prems(3) have "entries s (d @ (c # butlast cs)) \<noteq> None"
      by (simp add: path_exists_def)
    from tree_shaped_above[OF assms this] have d: "entries s d = Some Dir"
      by (simp add: isdir_def)
    have eq: "(d @ [c]) @ cs = d @ c # cs" by simp
    from Cons.prems False have "walk s (d @ [c]) cs =
        (case parent_error s ((d @ [c]) @ cs) of None \<Rightarrow> Inr ((d @ [c]) @ cs) | Some e \<Rightarrow> Inl e)"
      by (intro Cons.IH) auto
    then have "walk s (d @ [c]) cs =
        (case parent_error s (d @ c # cs) of None \<Rightarrow> Inr (d @ c # cs) | Some e \<Rightarrow> Inl e)"
      unfolding eq .
    with d c show ?thesis by simp
  qed
qed

lemma locate_render:
  assumes "tree_shaped s" "list_all plain b" "b \<noteq> []" "path_exists s (cwd @ butlast b)"
  shows "locate cwd s (render b) =
     (case parent_error s (cwd @ b) of None \<Rightarrow> Inr (cwd @ b) | Some e \<Rightarrow> Inl e)"
  using render_ends[OF assms(2,3)] walk_plain[OF assms]
  by (simp add: locate_def start_def startswith_sep_def components_render[OF assms(2)])

lemma locate_render_there:
  assumes "tree_shaped s" "list_all plain b" "b \<noteq> []" "path_exists s (cwd @ b)"
  shows "locate cwd s (render b) = Inr (cwd @ b)"
proof -
  from assms(3,4) have "entries s (butlast (cwd @ b)) = Some Dir"
    using assms(1) by (simp add: tree_shaped_def path_exists_def)
  with assms(3) have par: "entries s (cwd @ butlast b) = Some Dir" by (simp add: butlast_append)
  then have "parent_error s (cwd @ b) = None"
    using assms(3) by (simp add: parent_error_None isdir_def butlast_append)
  with locate_render[OF assms(1-3)] par show ?thesis by (simp add: path_exists_def)
qed

lemma os_path_exists_render:
  assumes "tree_shaped s" "list_all plain b" "b \<noteq> []"
  shows "os_path_exists cwd s (render b) = path_exists s (cwd @ b)"
proof (cases "path_exists s (cwd @ b)")
  case True
  with locate_render_there[OF assms True] render_ends[OF assms(2,3)] show ?thesis
    by (simp add: os_path_exists_def endswith_sep_def)
next
  case False
  show ?thesis
  proof (cases "locate cwd s (render b)")
    case (Inl e)
    with False show ?thesis by (simp add: os_path_exists_def)
  next
    case (Inr q)
    from locate_place[OF Inr] have "q = cwd @ b" by (simp add: place_render[OF assms(2,3)])
    with Inr False render_ends[OF assms(2,3)] show ?thesis
      by (simp add: os_path_exists_def endswith_sep_def)
  qed
qed

lemma os_path_isdir_render:
  assumes "tree_shaped s" "list_all plain b" "b \<noteq> []"
  shows "os_path_isdir cwd s (render b) = isdir s (cwd @ b)"
proof (cases "path_exists s (cwd @ b)")
  case True
  with locate_render_there[OF assms True] show ?thesis by (simp add: os_path_isdir_def)
next
  case False
  then have n: "\<not> isdir s (cwd @ b)" by (simp add: isdir_def path_exists_def)
  show ?thesis
  proof (cases "locate cwd s (render b)")
    case (Inl e)
    with n show ?thesis by (simp add: os_path_isdir_def)
  next
    case (Inr q)
    from locate_place[OF Inr] have "q = cwd @ b" by (simp add: place_render[OF assms(2,3)])
    with Inr n show ?thesis by (simp add: os_path_isdir_def)
  qed
qed

lemma os_mkdir_render:
  assumes "tree_shaped s" "list_all plain b" "b \<noteq> []" "path_exists s (cwd @ butlast b)"
  shows "os_mkdir cwd (render b) s = mkdir (cwd @ b) s"
  using locate_render[OF assms]
  by (cases "parent_error s (cwd @ b)") (simp_all add: os_mkdir_def mkdir_def)

lemma os_open_w_render:
  assumes "tree_shaped s" "list_all plain b" "b \<noteq> []" "path_exists s (cwd @ butlast b)"
  shows "os_open_w cwd (render b) s = open_w (cwd @ b) s"
  using locate_render[OF assms] render_ends[OF assms(2,3)]
  by (cases "parent_error s (cwd @ b)") (simp_all add: os_open_w_def open_w_def endswith_sep_def)

lemma os_make_leaf_render:
  assumes "tree_shaped s" "list_all plain b" "b \<noteq> []" "path_exists s (cwd @ butlast b)"
  shows "os_make_leaf cwd ok (render b) s = make_leaf ok (cwd @ b) s"
proof -
  have "tree_shaped (snd (mkdir (cwd @ b) s))" using assms(1) by (rule mkdir_tree_shaped)
  then have "os_path_isdir cwd (snd (mkdir (cwd @ b) s)) (render b)
      = isdir (snd (mkdir (cwd @ b) s)) (cwd @ b)"
    using assms(2,3) by (rule os_path_isdir_render)
  then show ?thesis
    by (cases "mkdir (cwd @ b) s")
       (auto simp: os_make_leaf_def make_leaf_def os_mkdir_render[OF assms] split: sum.splits)
qed

lemma posix_split_render:
  assumes "list_all plain (b @ [n])"
  shows "posix_split (render (b @ [n])) = (render b, n)"
proof -
  from assms have n: "sep \<notin> set n" and b: "list_all plain b" by (auto simp: plain_def)
  have tw: "takeWhile (\<lambda>c. c \<noteq> sep) (rev n @ sep # xs) = rev n" for xs
    using n by (induction n rule: rev_induct) auto
  have dw: "dropWhile (\<lambda>c. c \<noteq> sep) (rev n @ sep # xs) = sep # xs" for xs
    using n by (induction n rule: rev_induct) auto
  have tw0: "takeWhile (\<lambda>c. c \<noteq> sep) (rev n) = rev n"
    using n by (induction n rule: rev_induct) auto
  have dw0: "dropWhile (\<lambda>c. c \<noteq> sep) (rev n) = []"
    using n by (induction n rule: rev_induct) auto
  show ?thesis
  proof (cases "b = []")
    case True
    then show ?thesis by (simp add: posix_split_def tw0 dw0)
  next
    case False
    from render_ends[OF b False] have ne: "render b \<noteq> []" and l: "last (render b) \<noteq> sep"
      by auto
    then have "hd (rev (render b)) \<noteq> sep" by (simp add: hd_rev)
    with ne have strip: "dropWhile (\<lambda>c. c = sep) (rev (render b)) = rev (render b)"
      by (cases "rev (render b)") auto
    from ne l have "last (render b) \<in> set (render b)" by simp
    with l have some: "filter (\<lambda>c. c \<noteq> sep) (render b) \<noteq> []"
      by (auto simp: filter_empty_conv)
    from False some show ?thesis
      by (simp add: render_snoc posix_split_def rstrip_sep_def tw dw strip)
  qed
qed

lemma split_name_render:
  assumes "list_all plain (b @ [n])"
  shows "split_name (render (b @ [n])) = (render b, n)"
  using posix_split_render[OF assms] assms by (simp add: split_name_def plain_def)

lemma makedirs_there:
  assumes "makedirs ok p s = (r, s')" "r = Inr u \<or> r = Inl FileExistsError"
  shows "path_exists s' p"
proof -
  have leaf: "path_exists s1' p" if "make_leaf ok p s1 = (r, s1')" for s1 s1'
  proof (cases "mkdir p s1")
    case (Pair r0 s0)
    then show ?thesis
    proof (cases rule: mkdir_cases)
      case (fail e)
      from assms(2) show ?thesis
      proof
        assume "r = Inr u"
        with that make_leaf_isdir[of ok p s1 u s1'] show ?thesis
          by (simp add: isdir_def path_exists_def)
      next
        assume r: "r = Inl FileExistsError"
        with that Pair fail have e: "e = FileExistsError" "s1' = s1"
          by (auto simp: make_leaf_def split: if_splits)
        with Pair fail have "mkdir p s1 = (Inl FileExistsError, s1)" by simp
        then have "path_exists s1 p"
          by (auto simp: mkdir_def parent_error_def split: option.splits entry.splits if_splits)
        with e show ?thesis by simp
      qed
    next
      case ok
      with Pair that show ?thesis by (auto simp: make_leaf_def path_exists_def)
    qed
  qed
  from assms have "\<exists>s1. make_leaf ok p s1 = (r, s')"
    by (subst (asm) makedirs.simps) (auto split: if_splits prod.splits sum.splits)
  then obtain s1 where "make_leaf ok p s1 = (r, s')" by blast
  then show ?thesis by (rule leaf)
qed

lemma os_makedirs_render:
  assumes "isdir s cwd"
  shows "tree_shaped s \<Longrightarrow> list_all plain b \<Longrightarrow> b \<noteq> [] \<Longrightarrow>
     os_makedirs cwd ok (render b) s = makedirs ok (cwd @ b) s"
proof (induction b rule: rev_induct)
  case Nil
  then show ?case by simp
next
  case (snoc n b)
  let ?name = "render (b @ [n])"
  from snoc.prems have pb: "list_all plain b" and pn: "plain n" by auto
  have sp: "split_name ?name = (render b, n)" by (rule split_name_render[OF snoc.prems(2)])
  from pn have nd: "n \<noteq> ''.''" "n \<noteq> []" by (auto simp: plain_def)
  have bl: "butlast (cwd @ b @ [n]) = cwd @ b" by (simp add: butlast_append)
  have leaf: "os_make_leaf cwd ok ?name s0 = make_leaf ok (cwd @ b @ [n]) s0"
    if "tree_shaped s0" "path_exists s0 (cwd @ b)" for s0
    using os_make_leaf_render[OF that(1) snoc.prems(2), of cwd ok] that(2) by simp
  show ?case
  proof (cases "b = []")
    case True
    from assms have ex: "path_exists s cwd" by (simp add: isdir_def path_exists_def)
    have l: "os_makedirs cwd ok ?name s = os_make_leaf cwd ok ?name s"
      using sp True by (subst os_makedirs.simps) simp
    have r: "makedirs ok (cwd @ b @ [n]) s = make_leaf ok (cwd @ b @ [n]) s"
      using True ex by (subst makedirs.simps) (simp add: butlast_append)
    from l r leaf[OF snoc.prems(1)] ex True show ?thesis by simp
  next
    case False
    have ex: "os_path_exists cwd s (render b) = path_exists s (cwd @ b)"
      by (rule os_path_exists_render[OF snoc.prems(1) pb False])
    from render_ends[OF pb False] have rb: "render b \<noteq> []" by simp
    show ?thesis
    proof (cases "path_exists s (cwd @ b)")
      case True
      have l: "os_makedirs cwd ok ?name s = os_make_leaf cwd ok ?name s"
        using sp True ex by (subst os_makedirs.simps) simp
      have r: "makedirs ok (cwd @ b @ [n]) s = make_leaf ok (cwd @ b @ [n]) s"
        using True by (subst makedirs.simps) (simp add: bl)
      from l r leaf[OF snoc.prems(1) True] show ?thesis by simp
    next
      case absent: False
      obtain r s1 where h: "makedirs ok (cwd @ b) s = (r, s1)" by force
      from snoc.IH[OF snoc.prems(1) pb False] h
      have h': "os_makedirs cwd ok (render b) s = (r, s1)" by simp
      have ts1: "tree_shaped s1" using makedirs_tree_shaped[OF snoc.prems(1), of ok "cwd @ b"] h
        by simp
      have l: "os_makedirs cwd ok ?name s =
          (case r of Inl e \<Rightarrow> if e = FileExistsError then os_make_leaf cwd ok ?name s1
                             else (Inl e, s1)
           | Inr u \<Rightarrow> os_make_leaf cwd ok ?name s1)"
        using sp absent ex rb nd h'
        by (subst os_makedirs.simps) (simp split: sum.splits)
      have r': "makedirs ok (cwd @ b @ [n]) s =
          (case r of Inl e \<Rightarrow> if e = FileExistsError then make_leaf ok (cwd @ b @ [n]) s1
                             else (Inl e, s1)
           | Inr u \<Rightarrow> make_leaf ok (cwd @ b @ [n]) s1)"
        using absent False h
        by (subst makedirs.simps) (simp add: bl split: sum.splits)
      show ?thesis
      proof (cases r)
        case (Inl e)
        show ?thesis
        proof (cases "e = FileExistsError")
          case True
          with Inl h have "path_exists s1 (cwd @ b)" by (auto dest: makedirs_there)
          with l r' Inl True leaf[OF ts1] show ?thesis by simp
        next
          case False
          with l r' Inl show ?thesis by simp
        qed
      next
        case (Inr u)
        with h have "path_exists s1 (cwd @ b)" by (auto dest: makedirs_there)
        with l r' Inr leaf[OF ts1] show ?thesis by simp
      qed
    qed
  qed
qed

lemma os_ensure_base_path_render:
  assumes "isdir s cwd" "tree_shaped s" "list_all plain b" "b \<noteq> []"
  shows "os_ensure_base_path cwd (render b) s = ensure_base_path (cwd @ b) s"
  by (simp add: os_ensure_base_path_def ensure_base_path_def
      os_path_exists_render[OF assms(2-4)] os_makedirs_render[OF assms])

lemma create_structure_str_render_both:
  "\<forall>b. base = render b \<and> b \<noteq> [] \<and> list_all plain b \<and> plain_tree t \<and>
       tree_shaped s \<and> isdir s cwd \<longrightarrow>
     create_structure_str cwd base t s = create_structure (cwd @ b) t s"
  "\<forall>b. base = render b \<and> b \<noteq> [] \<and> list_all plain b \<and> plain_tree t \<and>
       tree_shaped s \<and> isdir s cwd \<and> path_exists s (cwd @ b) \<longrightarrow>
     for_items_str cwd base t s = for_items (cwd @ b) t s"
proof (induction cwd base t s and cwd base t s rule: create_structure_str_for_items_str.induct)
  case (1 cwd base_path tree s)
  show ?case
  proof (intro allI impI)
    fix b
    assume a: "base_path = render b \<and> b \<noteq> [] \<and> list_all plain b \<and> plain_tree tree \<and>
      tree_shaped s \<and> isdir s cwd"
    then have eb: "os_ensure_base_path cwd base_path s = ensure_base_path (cwd @ b) s"
      by (simp add: os_ensure_base_path_render)
    show "create_structure_str cwd base_path tree s = create_structure (cwd @ b) tree s"
    proof (cases "ensure_base_path (cwd @ b) s")
      case (Pair r s')
      show ?thesis
      proof (cases r)
        case (Inl e)
        with Pair eb show ?thesis
          by (simp add: create_structure_str.simps(1) create_structure.simps(1))
      next
        case (Inr u)
        have adv: "advances s s'" using ensure_base_path_advances[of s "cwd @ b"] Pair by simp
        have ts: "tree_shaped s'"
          using exec_tree_shaped[of s "[Ensure_Base (cwd @ b)]"] a Pair
          by (simp split: sum.splits)
        have ex: "path_exists s' (cwd @ b)"
          using Pair Inr by (auto dest: ensure_base_path_exists)
        from a adv have "isdir s' cwd" by (auto dest: advances_isdir)
        with "1.IH"[OF Pair[unfolded eb[symmetric], symmetric] Inr] a ts ex
        have "for_items_str cwd base_path tree s' = for_items (cwd @ b) tree s'" by simp
        with Pair Inr eb show ?thesis
          by (simp add: create_structure_str.simps(1) create_structure.simps(1))
      qed
    qed
  qed
next
  case (2 cwd base_path s)
  show ?case by simp
next
  case (3 cwd base_path name rest s)
  show ?case
  proof (intro allI impI)
    fix b
    assume a: "base_path = render b \<and> b \<noteq> [] \<and> list_all plain b \<and>
      plain_tree ((name, PyNone) # rest) \<and> tree_shaped s \<and> isdir s cwd \<and>
      path_exists s (cwd @ b)"
    then have pj: "posix_join base_path name = render (b @ [name])"
      by (simp add: posix_join_render)
    from a have "os_open_w cwd (render (b @ [name])) s = open_w (cwd @ b @ [name]) s"
      using os_open_w_render[of s "b @ [name]" cwd] by simp
    with pj have eo: "os_open_w cwd (posix_join base_path name) s = open_w (join (cwd @ b) name) s"
      by (simp add: join_def)
    show "for_items_str cwd base_path ((name, PyNone) # rest) s
        = for_items (cwd @ b) ((name, PyNone) # rest) s"
    proof (cases "open_w (join (cwd @ b) name) s")
      case (Pair r s')
      show ?thesis
      proof (cases r)
        case (Inl e)
        with Pair eo show ?thesis by simp
      next
        case (Inr u)
        have adv: "advances s s'" using open_w_advances[of s "join (cwd @ b) name"] Pair by simp
        have ts: "tree_shaped s'" using open_w_tree_shaped[of s "join (cwd @ b) name"] a Pair
          by simp
        from a adv have "isdir s' cwd" "path_exists s' (cwd @ b)"
          by (auto dest: advances_isdir advances_path_exists)
        with "3.IH"[OF Pair[unfolded eo[symmetric], symmetric] Inr] a ts
        have "for_items_str cwd base_path rest s' = for_items (cwd @ b) rest s'" by simp
        with Pair Inr eo show ?thesis by simp
      qed
    qed
  qed
next
  case (4 cwd base_path name sub rest s)
  show ?case
  proof (intro allI impI)
    fix b
    assume a: "base_path = render b \<and> b \<noteq> [] \<and> list_all plain b \<and>
      plain_tree ((name, PyDict sub) # rest) \<and> tree_shaped s \<and> isdir s cwd \<and>
      path_exists s (cwd @ b)"
    then have pj: "posix_join base_path name = render (b @ [name])"
      by (simp add: posix_join_render)
    from a have pl: "list_all plain (b @ [name])" by simp
    from a have "os_makedirs cwd True (render (b @ [name])) s = makedirs True (cwd @ b @ [name]) s"
      using os_makedirs_render[of s cwd "b @ [name]" True] by simp
    with pj have em: "os_makedirs cwd True (posix_join base_path name) s
        = makedirs True (join (cwd @ b) name) s"
      by (simp add: join_def)
    show "for_items_str cwd base_path ((name, PyDict sub) # rest) s
        = for_items (cwd @ b) ((name, PyDict sub) # rest) s"
    proof (cases "makedirs True (join (cwd @ b) name) s")
      case (Pair r s')
      show ?thesis
      proof (cases r)
        case (Inl e)
        with Pair em show ?thesis by simp
      next
        case (Inr u)
        note mk = Pair Inr
        have adv: "advances s s'"
          using makedirs_advances[of s True "join (cwd @ b) name"] Pair by simp
        have ts: "tree_shaped s'"
          using makedirs_tree_shaped[of s True "join (cwd @ b) name"] a Pair by simp
        from a adv have inv: "isdir s' cwd" "path_exists s' (cwd @ b)"
          by (auto dest: advances_isdir advances_path_exists)
        from "4.IH"(1)[OF mk(1)[unfolded em[symmetric], symmetric] mk(2)] a ts inv pj pl
        have ec: "create_structure_str cwd (posix_join base_path name) sub s'
            = create_structure (join (cwd @ b) name) sub s'"
          by (simp add: join_def)
        show ?thesis
        proof (cases "create_structure (join (cwd @ b) name) sub s'")
          case (Pair r2 s2)
          show ?thesis
          proof (cases r2)
            case (Inl e)
            with mk Pair em ec show ?thesis by simp
          next
            case (Inr u2)
            have cs: "s2 = snd (exec (calls (join (cwd @ b) name) sub) s')"
              using Pair by (simp add: create_structure_exec)
            have adv2: "advances s' s2" unfolding cs by (rule exec_advances)
            have ts2: "tree_shaped s2" unfolding cs using ts by (rule exec_tree_shaped)
            from inv adv2 have inv2: "isdir s2 cwd" "path_exists s2 (cwd @ b)"
              by (auto dest: advances_isdir advances_path_exists)
            from "4.IH"(2)[OF mk(1)[unfolded em[symmetric], symmetric] mk(2)
                Pair[unfolded ec[symmetric], symmetric] Inr] a ts2 inv2
            have "for_items_str cwd base_path rest s2 = for_items (cwd @ b) rest s2" by simp
            with mk Pair Inr em ec show ?thesis by simp
          qed
        qed
      qed
    qed
  qed
qed

lemma create_structure_str_render:
  assumes "b \<noteq> []" "list_all plain b" "plain_tree t" "tree_shaped s" "isdir s cwd"
  shows "create_structure_str cwd (render b) t s = create_structure (cwd @ b) t s"
  using create_structure_str_render_both(1)[of "render b" t s cwd] assms by simp

text \<open>
  So, for plain names, what is shown of \<open>create_structure\<close> holds of the program on its
  strings. In particular a path below the base path that is not the computed path of
  any node, and everything below it, there or not, is after the run what it was before.
\<close>

lemma create_structure_str_untouched:
  assumes "b \<noteq> []" "list_all plain b" "plain_tree t" "tree_shaped s" "isdir s cwd"
    and "strict_prefix (cwd @ b) p" "p \<notin> fst ` set (nodes (cwd @ b) t)" "prefix p q"
  shows "entries (snd (create_structure_str cwd (render b) t s)) q = entries s q"
  using create_structure_frame_components[of "cwd @ b" p t q s] assms(6-8)
  by (simp add: create_structure_str_render[OF assms(1-5)])

text \<open>
  A name that climbs out of the base path: the tree \<^verbatim>\<open>{"../escape.txt": FILE}\<close> under
  \<^verbatim>\<open>out\<close> makes the file \<^verbatim>\<open>escape.txt\<close> beside \<^verbatim>\<open>out\<close>.
\<close>

lemma create_structure_str_escapes:
  "create_structure_str [] ''out'' [(''../escape.txt'', PyNone)] fs_used =
     (Inr (),
      \<lparr>entries = [[] \<mapsto> Dir, [''out''] \<mapsto> Dir, [''out'', ''a.txt''] \<mapsto> File ''old'',
                  [''out'', ''notes.md''] \<mapsto> File ''keep'', [''escape.txt''] \<mapsto> File []],
       denied = allow_all, journal = [Created_File [''escape.txt'']], stdout = []\<rparr>)"
  by (simp add: fs_used_def allow_all_def str_simps)

section \<open>Files that are already there\<close>

lemma open_w_existing:
  assumes "entries s p = Some (File c)"
  shows "open_w p s =
    (if parent_error s p = None \<and> \<not> denied s p
     then (Inr (), s\<lparr>entries := (entries s)(p \<mapsto> File []),
                       journal := journal s @ [Truncated p]\<rparr>)
     else (Inl (case parent_error s p of Some e \<Rightarrow> e | None \<Rightarrow> PermissionError), s))"
  using assms by (auto simp: open_w_def split: option.splits)

lemma advances_news_mono:
  assumes "advances s s1" "advances s1 s'"
  shows "set (news s s1) \<subseteq> set (news s s')" "set (news s1 s') \<subseteq> set (news s s')"
proof -
  have "news s s' = news s s1 @ news s1 s'"
    using assms by (intro news_trans) (simp_all add: advances_def)
  then show "set (news s s1) \<subseteq> set (news s s')" "set (news s1 s') \<subseteq> set (news s s')"
    by simp_all
qed

lemma exec_truncates:
  assumes "exec cs s = (Inr u, s')" "Open_W p \<in> set cs" "entries s p = Some (File c)"
  shows "Truncated p \<in> set (news s s')"
  using assms
proof (induction cs arbitrary: s c)
  case Nil
  then show ?case by simp
next
  case (Cons d cs)
  obtain r s1 where h: "exec_call d s = (r, s1)" by force
  with Cons.prems(1) have r: "r = Inr ()" and rest: "exec cs s1 = (Inr u, s')"
    by (auto split: sum.splits)
  have a1: "advances s s1" using exec_call_advances[of s d] h by simp
  have a2: "advances s1 s'" using exec_advances[of s1 cs] rest by simp
  show ?case
  proof (cases "d = Open_W p")
    case True
    with h r Cons.prems(3) have "journal s1 = journal s @ [Truncated p]"
      by (auto simp: open_w_existing split: if_splits)
    then have "Truncated p \<in> set (news s s1)" by (simp add: news_def)
    with advances_news_mono(1)[OF a1 a2] show ?thesis by blast
  next
    case False
    with Cons.prems(2) have m: "Open_W p \<in> set cs" by simp
    from advances_file[OF a1 Cons.prems(3)] obtain y where "entries s1 p = Some (File y)"
      by blast
    from Cons.IH[OF rest m this] advances_news_mono(2)[OF a1 a2] show ?thesis by blast
  qed
qed

text \<open>
  Claim C7. Where the path of a file marker already holds a file with contents, the loop
  iteration that processes the marker truncates the file to empty and goes on with the
  rest, when the directory of the marker is there and the operating system admits the
  write; otherwise it raises and leaves the state as it is. In a successful run such a
  file is empty at the end, and the journal shows that it was truncated.
\<close>

theorem create_structure_truncates:
  assumes "entries s (join d name) = Some (File c)" and "c \<noteq> []"
  shows "(isdir s d \<and> \<not> denied s (join d name) \<longrightarrow>
            for_items d ((name, PyNone) # rest) s =
              for_items d rest
                (s\<lparr>entries := (entries s)(join d name \<mapsto> File []),
                   journal := journal s @ [Truncated (join d name)]\<rparr>)) \<and>
         (\<not> (isdir s d \<and> \<not> denied s (join d name)) \<longrightarrow>
            (\<exists>e. for_items d ((name, PyNone) # rest) s = (Inl e, s))) \<and>
         (fst (create_structure b t s) = Inr () \<and> (join d name, PyNone) \<in> set (nodes b t) \<longrightarrow>
            entries (snd (create_structure b t s)) (join d name) = Some (File []) \<and>
            Truncated (join d name) \<in> set (news s (snd (create_structure b t s))))"
proof (intro conjI impI)
  have pe: "parent_error s (join d name) = None \<longleftrightarrow> isdir s d"
    by (simp add: parent_error_None join_def)
  {
    assume "isdir s d \<and> \<not> denied s (join d name)"
    then show "for_items d ((name, PyNone) # rest) s =
        for_items d rest
          (s\<lparr>entries := (entries s)(join d name \<mapsto> File []),
             journal := journal s @ [Truncated (join d name)]\<rparr>)"
      using pe by (simp add: open_w_existing[OF assms(1)])
  next
    assume "\<not> (isdir s d \<and> \<not> denied s (join d name))"
    then show "\<exists>e. for_items d ((name, PyNone) # rest) s = (Inl e, s)"
      using pe by (auto simp: open_w_existing[OF assms(1)])
  next
    assume a: "fst (create_structure b t s) = Inr () \<and> (join d name, PyNone) \<in> set (nodes b t)"
    then obtain s' where run: "exec (calls b t) s = (Inr (), s')"
      by (cases "create_structure b t s") (simp add: create_structure_exec)
    from a have m: "Open_W (join d name) \<in> set (calls b t)" by (simp add: Open_W_calls)
    from exec_open_w_post[OF run m] run
    show "entries (snd (create_structure b t s)) (join d name) = Some (File [])"
      by (simp add: create_structure_exec)
    from exec_truncates[OF run m assms(1)] run
    show "Truncated (join d name) \<in> set (news s (snd (create_structure b t s)))"
      by (simp add: create_structure_exec)
  }
qed

theorem create_structure_truncates_witness:
  "entries fs_used (join out_dir ''a.txt'') = Some (File ''old'') \<and>
   for_items out_dir [(''a.txt'', PyNone)] fs_used =
     (Inr (), fs_used\<lparr>entries := (entries fs_used)(join out_dir ''a.txt'' \<mapsto> File []),
                       journal := journal fs_used @ [Truncated (join out_dir ''a.txt'')]\<rparr>) \<and>
   (\<exists>e. for_items out_dir [(''a.txt'', PyNone)] (fs_used\<lparr>denied := deny_all\<rparr>)
         = (Inl e, fs_used\<lparr>denied := deny_all\<rparr>)) \<and>
   entries (snd (create_structure out_dir scenario_tree fs_used)) (join out_dir ''a.txt'')
     = Some (File []) \<and>
   Truncated (join out_dir ''a.txt'')
     \<in> set (news fs_used (snd (create_structure out_dir scenario_tree fs_used)))"
proof -
  let ?bad = "fs_used\<lparr>denied := deny_all\<rparr>"
  have f: "entries fs_used (join out_dir ''a.txt'') = Some (File ''old'')"
    by (simp add: fs_examples join_def)
  have ne: "''old'' \<noteq> []" by simp
  have g: "isdir fs_used out_dir \<and> \<not> denied fs_used (join out_dir ''a.txt'')"
    by (simp add: fs_examples isdir_def)
  have ok: "fst (create_structure out_dir scenario_tree fs_used) = Inr () \<and>
      (join out_dir ''a.txt'', PyNone) \<in> set (nodes out_dir scenario_tree)"
    by (simp add: scenario_used_run scenario_nodes) (simp add: join_def out_dir_def)
  have f2: "entries ?bad (join out_dir ''a.txt'') = Some (File ''old'')"
    by (simp add: fs_examples deny_all_def join_def)
  have g2: "\<not> (isdir ?bad out_dir \<and> \<not> denied ?bad (join out_dir ''a.txt''))"
    by (simp add: fs_examples deny_all_def)
  from create_structure_truncates[OF f ne, of "[]" out_dir scenario_tree]
    create_structure_truncates[OF f2 ne, of "[]" out_dir scenario_tree] f g ok g2
  show ?thesis by (simp add: join_def)
qed

section \<open>A base path that admits no creation\<close>





















section \<open>Termination\<close>

lemma fuel_enough_both:
  "depth t \<le> n \<Longrightarrow> create_structure_fuel n b t s = Some (create_structure b t s)"
  "depth_below t \<le> n \<Longrightarrow> for_items_fuel n b t s = Some (for_items b t s)"
proof (induction n b t s and n b t s rule: create_structure_fuel_for_items_fuel.induct)
  case (1 base_path tree s)
  then show ?case by simp
next
  case (2 n base_path tree s)
  show ?case
  proof (cases "ensure_base_path base_path s")
    case (Pair r s')
    show ?thesis
    proof (cases r)
      case (Inl e)
      with Pair show ?thesis by (simp add: create_structure.simps(1))
    next
      case (Inr u)
      with Pair 2 show ?thesis by (simp add: create_structure.simps(1))
    qed
  qed
next
  case (3 n base_path s)
  show ?case by simp
next
  case (4 n base_path name rest s)
  show ?case
  proof (cases "open_w (join base_path name) s")
    case (Pair r s')
    show ?thesis
    proof (cases r)
      case (Inl e)
      with Pair show ?thesis by simp
    next
      case (Inr u)
      with Pair 4 show ?thesis by simp
    qed
  qed
next
  case (5 n base_path name sub rest s)
  from "5.prems" have d1: "depth sub \<le> n" and d2: "depth_below rest \<le> n" by simp_all
  show ?case
  proof (cases "makedirs True (join base_path name) s")
    case (Pair r s')
    show ?thesis
    proof (cases r)
      case (Inl e)
      with Pair show ?thesis by simp
    next
      case (Inr u)
      note mk = Pair Inr
      have sub: "create_structure_fuel n (join base_path name) sub s'
          = Some (create_structure (join base_path name) sub s')"
        using "5.IH"(1)[OF mk(1)[unfolded mk(2), symmetric] refl d1] .
      show ?thesis
      proof (cases "create_structure (join base_path name) sub s'")
        case (Pair r2 s2)
        show ?thesis
        proof (cases r2)
          case (Inl e)
          with mk Pair sub show ?thesis by simp
        next
          case (Inr u2)
          have "for_items_fuel n base_path rest s2 = Some (for_items base_path rest s2)"
            using "5.IH"(2)[OF mk(1)[unfolded mk(2), symmetric] refl, of "(Inr u2, s2)" "Inr u2" s2 u2]
              sub Pair Inr d2 by simp
          with mk Pair Inr sub show ?thesis by simp
        qed
      qed
    qed
  qed
qed

lemma child_smaller: "(name, c) \<in> set t \<Longrightarrow> size c < size (PyDict t)"
  by (induction t) auto

text \<open>
  Claim C9. The materializer is a total function of the tree: its recursion is accepted
  as structural on the tree, every recursive call is on a child of the tree it was
  called on, which is strictly smaller, and a recursion depth of the depth of the tree
  is enough for the run to return, with the result of \<open>create_structure\<close>.
\<close>

theorem create_structure_terminates:
  "create_structure_fuel (depth t) b t s = Some (create_structure b t s) \<and>
   (depth t \<le> n \<longrightarrow> create_structure_fuel n b t s = Some (create_structure b t s)) \<and>
   (\<forall>(name, c) \<in> set t. size c < size (PyDict t))"
proof (intro conjI impI ballI)
  show "create_structure_fuel (depth t) b t s = Some (create_structure b t s)"
    by (rule fuel_enough_both(1)) (rule order_refl)
next
  assume "depth t \<le> n"
  then show "create_structure_fuel n b t s = Some (create_structure b t s)"
    by (rule fuel_enough_both(1))
next
  fix x assume x: "x \<in> set t"
  obtain name c where "x = (name, c)" by (cases x)
  with x child_smaller[of name c t] show "case x of (name, c) \<Rightarrow> size c < size (PyDict t)"
    by simp
qed

theorem create_structure_terminates_witness:
  "depth scenario_tree = 2 \<and>
   create_structure_fuel 2 out_dir scenario_tree fs_fresh
     = Some (create_structure out_dir scenario_tree fs_fresh) \<and>
   create_structure_fuel 1 out_dir scenario_tree fs_fresh = None \<and>
   size (PyDict [(''b.txt'', PyNone)]) < size (PyDict scenario_tree)"
proof -
  have d: "depth scenario_tree = 2" by (simp add: scenario_tree_def)
  have m: "(''sub'', PyDict [(''b.txt'', PyNone)]) \<in> set scenario_tree"
    by (simp add: scenario_tree_def)
  have one: "create_structure_fuel 1 out_dir scenario_tree fs_fresh = None"
    by (simp add: fs_examples run_simps One_nat_def[symmetric] del: One_nat_def)
       (simp add: fs_examples run_simps)
  from create_structure_terminates[of scenario_tree out_dir fs_fresh 2] d m one
  show ?thesis by auto
qed

section \<open>The history does not matter\<close>

lemma replay_self: "replay j out s s = relog j out s"
  by (simp add: replay_def relog_def news_self)

lemma relog_fields [simp]:
  "entries (relog j out s) = entries s" "denied (relog j out s) = denied s"
  "journal (relog j out s) = j" "stdout (relog j out s) = out"
  by (simp_all add: relog_def)

lemma replay_fields [simp]:
  "entries (replay j out s s') = entries s'" "denied (replay j out s s') = denied s'"
  "journal (replay j out s s') = j @ news s s'" "stdout (replay j out s s') = out"
  by (simp_all add: replay_def)

lemma replay_trans:
  assumes "advances s s1" "advances s1 s2"
  shows "replay (j @ news s s1) out s1 s2 = replay j out s s2"
proof -
  have "news s s2 = news s s1 @ news s1 s2"
    using assms by (intro news_trans) (simp_all add: advances_def)
  then show ?thesis by (simp add: replay_def)
qed

lemma replay_relog: "replay j out s s1 = relog (j @ news s s1) out s1"
  by (simp add: replay_def relog_def)

lemma mkdir_relog:
  "mkdir p (relog j out s) = (fst (mkdir p s), replay j out s (snd (mkdir p s)))"
proof (cases "mkdir p s")
  case (Pair r s')
  then show ?thesis
  proof (cases rule: mkdir_cases)
    case (fail e)
    with Pair show ?thesis
      by (auto simp: mkdir_def path_exists_def parent_error_def replay_self
          split: option.splits entry.splits if_splits)
  next
    case ok
    with Pair show ?thesis
      by (simp add: mkdir_def path_exists_def parent_error_def replay_def relog_def news_def
          split: option.splits entry.splits if_splits)
  qed
qed

lemma parent_error_relog [simp]: "parent_error (relog j out s) p = parent_error s p"
  by (simp add: parent_error_def)

lemma open_w_relog:
  "open_w p (relog j out s) = (fst (open_w p s), replay j out s (snd (open_w p s)))"
proof (cases "parent_error s p")
  case (Some e)
  then show ?thesis by (simp add: open_w_def replay_self)
next
  case None
  show ?thesis
  proof (cases "entries s p")
    case None
    with \<open>parent_error s p = None\<close> show ?thesis
      by (simp add: open_w_def replay_self) (simp add: replay_def relog_def news_def)
  next
    case (Some x)
    with \<open>parent_error s p = None\<close> show ?thesis
      by (cases x) (simp_all add: open_w_def replay_self, simp add: replay_def relog_def news_def)
  qed
qed

lemma make_leaf_relog:
  "make_leaf ok p (relog j out s)
     = (fst (make_leaf ok p s), replay j out s (snd (make_leaf ok p s)))"
  by (cases "mkdir p s"; cases "fst (mkdir p s)")
     (auto simp: make_leaf_def mkdir_relog isdir_def)

lemma makedirs_relog:
  "makedirs ok p (relog j out s)
     = (fst (makedirs ok p s), replay j out s (snd (makedirs ok p s)))"
proof (induction ok p s arbitrary: j rule: makedirs.induct)
  case (1 ok name s)
  let ?c = "butlast name \<noteq> [] \<and> \<not> path_exists s (butlast name)"
  have c: "(butlast name \<noteq> [] \<and> \<not> path_exists (relog j out s) (butlast name)) = ?c"
    by (simp add: path_exists_def)
  show ?case
  proof (cases ?c)
    case False
    have "makedirs ok name (relog j out s) = make_leaf ok name (relog j out s)"
      using False c by (subst makedirs.simps) auto
    moreover have "makedirs ok name s = make_leaf ok name s"
      using False by (subst makedirs.simps) auto
    ultimately show ?thesis by (simp add: make_leaf_relog)
  next
    case True
    obtain r s1 where h: "makedirs ok (butlast name) s = (r, s1)" by force
    have a1: "advances s s1" using makedirs_advances[of s ok "butlast name"] h by simp
    have h': "makedirs ok (butlast name) (relog j out s) = (r, relog (j @ news s s1) out s1)"
      using "1.IH"[OF True, of j] h by (simp add: replay_relog)
    have a2: "advances s1 (snd (make_leaf ok name s1))" by (rule make_leaf_advances)
    have leaf: "make_leaf ok name (relog (j @ news s s1) out s1)
        = (fst (make_leaf ok name s1), replay j out s (snd (make_leaf ok name s1)))"
      by (simp add: make_leaf_relog replay_trans[OF a1 a2])
    have l: "makedirs ok name (relog j out s) =
        (case (r, relog (j @ news s s1) out s1) of
           (Inl e, s') \<Rightarrow> if e = FileExistsError then make_leaf ok name s' else (Inl e, s')
         | (Inr u, s') \<Rightarrow> make_leaf ok name s')"
      using True c h' by (subst makedirs.simps) simp
    have r: "makedirs ok name s =
        (case (r, s1) of
           (Inl e, s') \<Rightarrow> if e = FileExistsError then make_leaf ok name s' else (Inl e, s')
         | (Inr u, s') \<Rightarrow> make_leaf ok name s')"
      using True h by (subst makedirs.simps) simp
    show ?thesis
      unfolding l r by (cases r) (simp_all add: leaf replay_relog)
  qed
qed

lemma ensure_base_path_relog:
  "ensure_base_path p (relog j out s)
     = (fst (ensure_base_path p s), replay j out s (snd (ensure_base_path p s)))"
  by (simp add: ensure_base_path_def path_exists_def makedirs_relog replay_self)

lemma exec_call_relog:
  "exec_call c (relog j out s) = (fst (exec_call c s), replay j out s (snd (exec_call c s)))"
  by (cases c) (simp_all add: ensure_base_path_relog open_w_relog makedirs_relog)

lemma exec_relog:
  "exec cs (relog j out s) = (fst (exec cs s), replay j out s (snd (exec cs s)))"
proof (induction cs arbitrary: s j)
  case Nil
  show ?case by (simp add: replay_self)
next
  case (Cons c cs)
  obtain r s1 where h: "exec_call c s = (r, s1)" by force
  have a1: "advances s s1" using exec_call_advances[of s c] h by simp
  have a2: "advances s1 (snd (exec cs s1))" by (rule exec_advances)
  have h': "exec_call c (relog j out s) = (r, relog (j @ news s s1) out s1)"
    using h by (simp add: exec_call_relog replay_relog)
  show ?case
  proof (cases r)
    case (Inl e)
    with h h' show ?thesis by (simp add: replay_relog)
  next
    case (Inr u)
    with h h' show ?thesis
      by (simp add: Cons.IH replay_trans[OF a1 a2])
  qed
qed

lemma same_disk_relog:
  assumes "entries s1 = entries s2" "denied s1 = denied s2"
  shows "s2 = relog (journal s2) (stdout s2) s1"
  using assms by (cases s1; cases s2) (simp add: relog_def)

lemma news_replay: "news (relog j out s) (replay j out s s') = news s s'"
  by (simp add: news_def)

lemma create_structure_same_disk:
  assumes "entries s1 = entries s2" "denied s1 = denied s2"
  shows "create_structure b t s2 =
    (fst (create_structure b t s1),
     replay (journal s2) (stdout s2) s1 (snd (create_structure b t s1)))"
proof -
  have "create_structure b t s2 = exec (calls b t) (relog (journal s2) (stdout s2) s1)"
    using same_disk_relog[OF assms] by (simp add: create_structure_exec)
  then show ?thesis by (simp add: exec_relog create_structure_exec)
qed

section \<open>The order of the events\<close>

lemma mkdir_events: "subseq (map event_path (news s (snd (mkdir p s)))) [p]"
proof (cases "mkdir p s")
  case (Pair r s')
  then show ?thesis
    by (cases rule: mkdir_cases) (simp_all add: Pair news_def)
qed

lemma open_w_events: "subseq (map event_path (news s (snd (open_w p s)))) [p]"
proof (cases "open_w p s")
  case (Pair r s')
  then show ?thesis
    by (cases rule: open_w_cases) (simp_all add: Pair news_def)
qed

lemma events_append:
  assumes "advances s s1" "advances s1 s2"
    and "subseq (map event_path (news s s1)) xs"
    and "subseq (map event_path (news s1 s2)) ys"
  shows "subseq (map event_path (news s s2)) (xs @ ys)"
proof -
  have "news s s2 = news s s1 @ news s1 s2"
    using assms(1,2) by (intro news_trans) (simp_all add: advances_def)
  with assms(3,4) show ?thesis by (simp add: list_emb_append_mono)
qed

lemma events_weaken_right:
  "subseq (map event_path (news s s1)) xs \<Longrightarrow> subseq (map event_path (news s s1)) (xs @ ys)"
  by (rule subseq_rev_drop_many)

lemma makedirs_leaf_events:
  assumes "butlast p = [] \<or> path_exists s (butlast p)"
  shows "subseq (map event_path (news s (snd (makedirs ok p s)))) [p]"
proof -
  have "makedirs ok p s = make_leaf ok p s"
    using assms by (subst makedirs.simps) auto
  then show ?thesis by (simp add: make_leaf_snd mkdir_events)
qed

lemma makedirs_events:
  "subseq (map event_path (news s (snd (makedirs ok p s)))) (prefixes p)"
proof (induction ok p s rule: makedirs.induct)
  case (1 ok name s)
  have last: "subseq [name] (prefixes name)" by (simp add: subseq_singleton_left)
  show ?case
  proof (cases "butlast name \<noteq> [] \<and> \<not> path_exists s (butlast name)")
    case False
    then have "subseq (map event_path (news s (snd (makedirs ok name s)))) [name]"
      by (intro makedirs_leaf_events) auto
    from this last show ?thesis by (rule subseq_order.trans)
  next
    case True
    then have ne: "name \<noteq> []" by auto
    obtain r s1 where h: "makedirs ok (butlast name) s = (r, s1)" by force
    have a1: "advances s s1" using makedirs_advances[of s ok "butlast name"] h by simp
    have e1: "subseq (map event_path (news s s1)) (prefixes (butlast name))"
      using "1.IH"[OF True] h by simp
    have pf: "prefixes name = prefixes (butlast name) @ [name]"
      using ne prefixes_snoc[of "butlast name" "last name"] by simp
    let ?s2 = "snd (make_leaf ok name s1)"
    have a2: "advances s1 ?s2" by (rule make_leaf_advances)
    have e2: "subseq (map event_path (news s1 ?s2)) [name]"
      by (simp add: make_leaf_snd mkdir_events)
    have both: "subseq (map event_path (news s ?s2)) (prefixes name)"
      unfolding pf by (rule events_append[OF a1 a2 e1 e2])
    have only: "subseq (map event_path (news s s1)) (prefixes name)"
      unfolding pf using e1 by (rule events_weaken_right)
    have eq: "makedirs ok name s =
        (case (r, s1) of
           (Inl e, s') \<Rightarrow> if e = FileExistsError then make_leaf ok name s' else (Inl e, s')
         | (Inr u, s') \<Rightarrow> make_leaf ok name s')"
      using True h by (subst makedirs.simps) simp
    have "snd (makedirs ok name s) = ?s2 \<or> snd (makedirs ok name s) = s1"
      unfolding eq by (cases r) auto
    with both only show ?thesis by auto
  qed
qed

lemma for_items_advances: "advances s (snd (for_items b t s))"
  by (simp add: create_structure_exec_both(2) exec_advances)

lemma create_structure_advances: "advances s (snd (create_structure b t s))"
  by (simp add: create_structure_exec exec_advances)

lemma walk_events_both:
  "path_exists s b \<Longrightarrow>
     subseq (map event_path (news s (snd (create_structure b t s)))) (map fst (nodes b t))"
  "path_exists s b \<Longrightarrow>
     subseq (map event_path (news s (snd (for_items b t s)))) (map fst (nodes b t))"
proof (induction b t s and b t s rule: create_structure_for_items.induct)
  case (1 base_path tree s)
  from "1.prems" have e: "ensure_base_path base_path s = (Inr (), s)"
    by (simp add: ensure_base_path_def)
  then have "create_structure base_path tree s = for_items base_path tree s"
    by (simp add: create_structure.simps(1))
  with "1.IH"[OF e[symmetric] refl "1.prems"] show ?case by simp
next
  case (2 base_path s)
  show ?case by (simp add: news_self)
next
  case (3 base_path name rest s)
  let ?p = "join base_path name"
  obtain r s1 where h: "open_w ?p s = (r, s1)" by force
  have a1: "advances s s1" using open_w_advances[of s ?p] h by simp
  have e1: "subseq (map event_path (news s s1)) [?p]"
    using open_w_events[of s ?p] h by simp
  show ?case
  proof (cases r)
    case (Inl e)
    with h e1 show ?thesis by (simp add: subseq_rev_drop_many[of _ "[?p]", simplified])
  next
    case (Inr u)
    have ex: "path_exists s1 base_path" using a1 "3.prems" by (rule advances_path_exists)
    have e2: "subseq (map event_path (news s1 (snd (for_items base_path rest s1))))
        (map fst (nodes base_path rest))"
      using "3.IH"[OF h[symmetric] Inr ex] .
    from events_append[OF a1 for_items_advances e1 e2] h Inr show ?thesis by simp
  qed
next
  case (4 base_path name sub rest s)
  let ?p = "join base_path name"
  obtain r s1 where h: "makedirs True ?p s = (r, s1)" by force
  have a1: "advances s s1" using makedirs_advances[of s True ?p] h by simp
  have "butlast ?p = [] \<or> path_exists s (butlast ?p)"
    using "4.prems" by (simp add: join_def)
  from makedirs_leaf_events[OF this, of True] h
  have e1: "subseq (map event_path (news s s1)) [?p]" by simp
  show ?case
  proof (cases r)
    case (Inl e)
    with h e1 show ?thesis by (simp add: subseq_rev_drop_many[of _ "[?p]", simplified])
  next
    case (Inr u)
    with h have "path_exists s1 ?p"
      by (auto dest: makedirs_isdir simp: isdir_def path_exists_def)
    from "4.IH"(1)[OF h[symmetric] Inr this]
    have e2: "subseq (map event_path (news s1 (snd (create_structure ?p sub s1))))
        (map fst (nodes ?p sub))" .
    obtain r2 s2 where h2: "create_structure ?p sub s1 = (r2, s2)" by force
    have a2: "advances s1 s2" using create_structure_advances[of s1 ?p sub] h2 by simp
    have e12: "subseq (map event_path (news s s2)) ([?p] @ map fst (nodes ?p sub))"
      using events_append[OF a1 a2 e1] e2 h2 by simp
    show ?thesis
    proof (cases r2)
      case (Inl e)
      with h \<open>r = Inr u\<close> h2 subseq_rev_drop_many[OF e12, of "map fst (nodes base_path rest)"]
      show ?thesis by simp
    next
      case (Inr u2)
      have ex: "path_exists s2 base_path"
        using advances_trans[OF a1 a2] "4.prems" by (rule advances_path_exists)
      have e3: "subseq (map event_path (news s2 (snd (for_items base_path rest s2))))
          (map fst (nodes base_path rest))"
        using "4.IH"(2)[OF h[symmetric] \<open>r = Inr u\<close> h2[symmetric] Inr ex] .
      from events_append[OF advances_trans[OF a1 a2] for_items_advances e12 e3]
        h \<open>r = Inr u\<close> h2 Inr
      show ?thesis by simp
    qed
  qed
qed

lemma create_structure_events:
  "subseq (map event_path (news s (snd (create_structure b t s))))
     (prefixes b @ map fst (nodes b t))"
proof -
  obtain r s1 where e: "ensure_base_path b s = (r, s1)" by force
  have a1: "advances s s1" using ensure_base_path_advances[of s b] e by simp
  have e1: "subseq (map event_path (news s s1)) (prefixes b)"
  proof (cases "path_exists s b")
    case True
    with e show ?thesis by (auto simp: ensure_base_path_def news_self)
  next
    case False
    with e makedirs_events[of s False b] show ?thesis by (simp add: ensure_base_path_def)
  qed
  show ?thesis
  proof (cases r)
    case (Inl err)
    with e subseq_rev_drop_many[OF e1] show ?thesis by (simp add: create_structure.simps(1))
  next
    case (Inr u)
    with e have ex: "path_exists s1 b" by (auto dest: ensure_base_path_exists)
    from events_append[OF a1 for_items_advances e1 walk_events_both(2)[OF ex]] e Inr
    show ?thesis by (simp add: create_structure.simps(1))
  qed
qed

section \<open>Determinism\<close>

lemma create_directory_structure_stdout:
  "stdout (snd (create_directory_structure s)) =
     stdout s @ (if fst (create_directory_structure s) = Inr () then [success_line] else [])"
proof (cases "create_structure [base_dir] structure_literal s")
  case (Pair r s')
  have "stdout s' = stdout s"
    using create_structure_advances[of s "[base_dir]" structure_literal] Pair
    by (simp add: advances_def)
  with Pair show ?thesis
    by (cases r) (simp_all add: create_directory_structure_def print_def)
qed

lemma create_directory_structure_fst:
  "fst (create_directory_structure s) = fst (create_structure [base_dir] structure_literal s)"
  by (cases "create_structure [base_dir] structure_literal s";
      cases "fst (create_structure [base_dir] structure_literal s)")
     (simp_all add: create_directory_structure_def)

text \<open>
  Claim C10. Two runs with the same tree and base path from states with the same entries
  and the same permissions, whatever happened before them, end alike: with the same
  result, the same entries, and the same events in the same order. The paths of these
  events follow the order of the walk: the base path and its ancestors from the
  outermost, then the nodes of the tree in the order of the mapping, each directory
  before what it contains. The program prints its one line exactly when the run
  succeeds, so both runs print the same.
\<close>

theorem create_structure_deterministic:
  assumes "entries s1 = entries s2" and "denied s1 = denied s2"
  shows "fst (create_structure b t s1) = fst (create_structure b t s2) \<and>
         entries (snd (create_structure b t s1)) = entries (snd (create_structure b t s2)) \<and>
         news s1 (snd (create_structure b t s1)) = news s2 (snd (create_structure b t s2)) \<and>
         subseq (map event_path (news s1 (snd (create_structure b t s1))))
           (prefixes b @ map fst (nodes b t)) \<and>
         fst (create_directory_structure s1) = fst (create_directory_structure s2) \<and>
         stdout (snd (create_directory_structure s1)) =
           stdout s1 @ (if fst (create_directory_structure s1) = Inr () then [success_line] else []) \<and>
         stdout (snd (create_directory_structure s2)) =
           stdout s2 @ (if fst (create_directory_structure s1) = Inr () then [success_line] else [])"
proof -
  have run: "create_structure b' t' s2 =
      (fst (create_structure b' t' s1),
       replay (journal s2) (stdout s2) s1 (snd (create_structure b' t' s1)))" for b' t'
    using assms by (rule create_structure_same_disk)
  have s2: "s2 = relog (journal s2) (stdout s2) s1"
    using assms by (rule same_disk_relog)
  have n: "news s2 (snd (create_structure b t s2)) = news s1 (snd (create_structure b t s1))"
    by (subst (1) s2) (simp add: run news_replay)
  have f: "fst (create_directory_structure s1) = fst (create_directory_structure s2)"
    by (simp add: create_directory_structure_fst run)
  show ?thesis
    using n f create_structure_events[of s1 b t]
      create_directory_structure_stdout[of s1] create_directory_structure_stdout[of s2]
    by (simp add: run)
qed

theorem create_structure_deterministic_witness:
  "fst (create_structure out_dir scenario_tree
          (relog [Truncated [''before'']] [''earlier output''] fs_fresh)) = Inr () \<and>
   news (relog [Truncated [''before'']] [''earlier output''] fs_fresh)
        (snd (create_structure out_dir scenario_tree
                (relog [Truncated [''before'']] [''earlier output''] fs_fresh)))
     = [Created_Dir [''out''], Created_File [''out'', ''a.txt''],
        Created_Dir [''out'', ''sub''], Created_File [''out'', ''sub'', ''b.txt'']]"
proof -
  let ?s2 = "relog [Truncated [''before'']] [''earlier output''] fs_fresh"
  have e: "entries fs_fresh = entries ?s2" and d: "denied fs_fresh = denied ?s2"
    by simp_all
  have n: "news fs_fresh (snd (create_structure out_dir scenario_tree fs_fresh))
      = [Created_Dir [''out''], Created_File [''out'', ''a.txt''],
         Created_Dir [''out'', ''sub''], Created_File [''out'', ''sub'', ''b.txt'']]"
    by (simp add: scenario_fresh_run news_def) (simp add: fs_fresh_def)
  have ok: "fst (create_structure out_dir scenario_tree fs_fresh) = Inr ()"
    by (simp add: scenario_fresh_run)
  from create_structure_deterministic[OF e d, of out_dir scenario_tree] n ok
  show ?thesis by simp
qed

section \<open>The base directory, created with its ancestors\<close>

lemma makedirs_creates:
  "entries s [] = Some Dir \<Longrightarrow>
   \<forall>q. strict_prefix q p \<longrightarrow> (\<forall>c. entries s q \<noteq> Some (File c)) \<Longrightarrow>
   \<forall>q. prefix q p \<and> entries s q = None \<longrightarrow> \<not> denied s q \<Longrightarrow>
   entries s p = None \<Longrightarrow>
   fst (makedirs ok p s) = Inr ()"
proof (induction ok p s rule: makedirs.induct)
  case (1 ok name s)
  note root = "1.prems"(1) and nofile = "1.prems"(2) and allowed = "1.prems"(3)
    and absent = "1.prems"(4)
  from root absent have ne: "name \<noteq> []" by auto
  have pb: "prefix (butlast name) name" by (rule prefixeq_butlast)
  have "butlast name \<noteq> name"
    using ne by (cases name rule: rev_cases) auto
  with pb have sp: "strict_prefix (butlast name) name" by (simp add: strict_prefix_def)
  have leaf: "fst (make_leaf ok name s0) = Inr ()"
    if "entries s0 (butlast name) = Some Dir" "entries s0 name = None" "denied s0 = denied s"
    for s0
  proof -
    have "mkdir name s0 =
        (Inr (), s0\<lparr>entries := (entries s0)(name \<mapsto> Dir),
                     journal := journal s0 @ [Created_Dir name]\<rparr>)"
      using that ne allowed absent by (simp add: mkdir_def parent_error_def path_exists_def)
    then show ?thesis by (simp add: make_leaf_def)
  qed
  show ?case
  proof (cases "butlast name \<noteq> [] \<and> \<not> path_exists s (butlast name)")
    case False
    have "entries s (butlast name) = Some Dir"
    proof (cases "butlast name = []")
      case True
      with root show ?thesis by simp
    next
      case False
      with \<open>\<not> (butlast name \<noteq> [] \<and> \<not> path_exists s (butlast name))\<close>
      obtain x where x: "entries s (butlast name) = Some x" by (auto simp: path_exists_def)
      with nofile sp show ?thesis by (cases x) auto
    qed
    from leaf[OF this absent refl] False show ?thesis
      by (subst makedirs.simps) auto
  next
    case True
    have h0: "fst (makedirs ok (butlast name) s) = Inr ()"
    proof (rule "1.IH"[OF True root])
      show "\<forall>q. strict_prefix q (butlast name) \<longrightarrow> (\<forall>c. entries s q \<noteq> Some (File c))"
        using nofile prefix_order.less_trans[OF _ sp] by blast
      show "\<forall>q. prefix q (butlast name) \<and> entries s q = None \<longrightarrow> \<not> denied s q"
        using allowed prefix_order.trans[OF _ pb] by blast
      show "entries s (butlast name) = None"
        using True by (simp add: path_exists_def)
    qed
    then obtain s1 where h: "makedirs ok (butlast name) s = (Inr (), s1)"
      by (cases "makedirs ok (butlast name) s") auto
    have d: "entries s1 (butlast name) = Some Dir"
      using makedirs_isdir[OF h] by (simp add: isdir_def)
    have "\<not> prefix name (butlast name)"
      using sp by (auto simp: strict_prefix_def)
    from makedirs_frame[OF this, of ok s] h absent have a: "entries s1 name = None" by simp
    have dn: "denied s1 = denied s"
      using makedirs_advances[of s ok "butlast name"] h by (simp add: advances_def)
    from leaf[OF d a dn] True h show ?thesis
      by (subst makedirs.simps) simp
  qed
qed

text \<open>
  Claim C2, as amended, for a filesystem of directories and regular files. The first
  statement of the body never fails on a base path that is already there, as a directory
  or as a regular file, and then changes nothing; when it completes and the base path
  was not already there as a regular file, a directory is at the base path afterwards;
  an absent base path whose parent directory is there and admits it is created, and
  nothing else is; and an absent base path is created, with the ancestors it lacks,
  whenever the directory that paths are resolved from is there, none of the ancestors
  of the base path is a regular file, and the operating system admits every directory
  that has to be created (what it would say about a directory that is already there
  does not matter).
\<close>

theorem ensure_base_path_directory:
  "(path_exists s b \<longrightarrow> ensure_base_path b s = (Inr (), s)) \<and>
   (fst (ensure_base_path b s) = Inr () \<and> (\<forall>c. entries s b \<noteq> Some (File c)) \<longrightarrow>
      isdir (snd (ensure_base_path b s)) b) \<and>
   (\<not> path_exists s b \<and> b \<noteq> [] \<and> isdir s (butlast b) \<and> \<not> denied s b \<longrightarrow>
      ensure_base_path b s =
        (Inr (), s\<lparr>entries := (entries s)(b \<mapsto> Dir),
                     journal := journal s @ [Created_Dir b]\<rparr>)) \<and>
   (\<not> path_exists s b \<and> isdir s [] \<and>
    (\<forall>q. strict_prefix q b \<longrightarrow> (\<forall>c. entries s q \<noteq> Some (File c))) \<and>
    (\<forall>q. prefix q b \<and> entries s q = None \<longrightarrow> \<not> denied s q) \<longrightarrow>
      fst (ensure_base_path b s) = Inr () \<and> isdir (snd (ensure_base_path b s)) b)"
proof (intro conjI impI)
  assume "path_exists s b"
  then show "ensure_base_path b s = (Inr (), s)"
    by (simp add: ensure_base_path_def)
next
  assume "fst (ensure_base_path b s) = Inr () \<and> (\<forall>c. entries s b \<noteq> Some (File c))"
  then show "isdir (snd (ensure_base_path b s)) b"
    by (simp add: ensure_base_path_isdir)
next
  assume "\<not> path_exists s b \<and> b \<noteq> [] \<and> isdir s (butlast b) \<and> \<not> denied s b"
  then show "ensure_base_path b s =
      (Inr (), s\<lparr>entries := (entries s)(b \<mapsto> Dir),
                   journal := journal s @ [Created_Dir b]\<rparr>)"
    by (simp add: ensure_base_path_fresh_dir)
next
  assume a: "\<not> path_exists s b \<and> isdir s [] \<and>
    (\<forall>q. strict_prefix q b \<longrightarrow> (\<forall>c. entries s q \<noteq> Some (File c))) \<and>
    (\<forall>q. prefix q b \<and> entries s q = None \<longrightarrow> \<not> denied s q)"
  then have "fst (makedirs False b s) = Inr ()"
    by (intro makedirs_creates) (simp_all add: isdir_def path_exists_def)
  with a show ok: "fst (ensure_base_path b s) = Inr ()"
    by (simp add: ensure_base_path_def)
  from a have "\<forall>c. entries s b \<noteq> Some (File c)" by (simp add: path_exists_def)
  with ok show "isdir (snd (ensure_base_path b s)) b"
    by (simp add: ensure_base_path_isdir)
qed

theorem ensure_base_path_directory_witness:
  "ensure_base_path out_dir fs_used = (Inr (), fs_used) \<and>
   isdir (snd (ensure_base_path out_dir fs_fresh)) out_dir \<and>
   ensure_base_path out_dir fs_fresh =
     (Inr (), fs_fresh\<lparr>entries := (entries fs_fresh)(out_dir \<mapsto> Dir),
                        journal := journal fs_fresh @ [Created_Dir out_dir]\<rparr>) \<and>
   fst (ensure_base_path [''a'', ''b'', ''c''] fs_fresh) = Inr () \<and>
   isdir (snd (ensure_base_path [''a'', ''b'', ''c''] fs_fresh)) [''a'', ''b'', ''c''] \<and>
   journal (snd (ensure_base_path [''a'', ''b'', ''c''] fs_fresh))
     = [Created_Dir [''a''], Created_Dir [''a'', ''b''], Created_Dir [''a'', ''b'', ''c'']] \<and>
   denied fs_closed_out [''out''] \<and>
   fst (ensure_base_path [''out'', ''new'', ''deep''] fs_closed_out) = Inr () \<and>
   isdir (snd (ensure_base_path [''out'', ''new'', ''deep''] fs_closed_out))
     [''out'', ''new'', ''deep'']"
proof -
  have deep: "\<not> path_exists fs_fresh [''a'', ''b'', ''c''] \<and> isdir fs_fresh [] \<and>
      (\<forall>q. strict_prefix q [''a'', ''b'', ''c''] \<longrightarrow> (\<forall>c. entries fs_fresh q \<noteq> Some (File c))) \<and>
      (\<forall>q. prefix q [''a'', ''b'', ''c''] \<and> entries fs_fresh q = None \<longrightarrow> \<not> denied fs_fresh q)"
    by (simp add: fs_examples path_exists_def isdir_def)
  have j: "journal (snd (ensure_base_path [''a'', ''b'', ''c''] fs_fresh))
      = [Created_Dir [''a''], Created_Dir [''a'', ''b''], Created_Dir [''a'', ''b'', ''c'']]"
    by (simp add: fs_examples run_simps)
  have nofile: "\<forall>q. strict_prefix q [''out'', ''new'', ''deep''] \<longrightarrow>
      (\<forall>c. entries fs_closed_out q \<noteq> Some (File c))"
  proof (intro allI impI)
    fix q :: path and c
    assume "strict_prefix q [''out'', ''new'', ''deep'']"
    then have "q = [] \<or> q = [''out''] \<or> q = [''out'', ''new'']"
      by (auto simp: strict_prefix_def prefix_Cons prefix_def Cons_eq_append_conv)
    then show "entries fs_closed_out q \<noteq> Some (File c)"
      by (auto simp: fs_closed_out_def)
  qed
  have closed: "\<not> path_exists fs_closed_out [''out'', ''new'', ''deep''] \<and>
      isdir fs_closed_out [] \<and>
      (\<forall>q. prefix q [''out'', ''new'', ''deep''] \<and> entries fs_closed_out q = None \<longrightarrow>
         \<not> denied fs_closed_out q)"
    by (auto simp: fs_closed_out_def deny_out_def path_exists_def isdir_def)
  have d: "denied fs_closed_out [''out'']"
    by (simp add: fs_closed_out_def deny_out_def)
  from ensure_base_path_directory[of fs_used out_dir]
    ensure_base_path_directory[of fs_fresh out_dir]
    ensure_base_path_directory[of fs_fresh "[''a'', ''b'', ''c'']"]
    ensure_base_path_directory[of fs_closed_out "[''out'', ''new'', ''deep'']"]
    deep j nofile closed d
  show ?thesis
    by (simp add: fs_examples path_exists_def isdir_def)
qed

text \<open>
  Claim C2 as stated fails where the base path is already there as a regular file: the
  existence test passes, nothing is created, no error is raised, and no directory is at
  the base path.
\<close>

theorem ensure_base_path_file_counterexample:
  "ensure_base_path [base_dir] fs_lib_file = (Inr (), fs_lib_file) \<and>
   \<not> isdir (snd (ensure_base_path [base_dir] fs_lib_file)) [base_dir]"
  by (simp add: ensure_base_path_def path_exists_def isdir_def fs_lib_file_def base_dir_def)

end
